theory Spec2Isabelle
  imports Complex_Main "HOL-Library.Multiset" "HOL-Library.Log_Nat"
begin

section \<open>Strings and numbers of the host language\<close>

text \<open>
  Location codes, bay labels and service names are modelled as \<^typ>\<open>string\<close>, a list of
  8-bit characters: the yard codes are ASCII text. \<open>toUpperCase\<close> maps the letters
  \<open>a\<close> to \<open>z\<close> to \<open>A\<close> to \<open>Z\<close> and leaves every other character alone.
\<close>

definition charCode :: "char \<Rightarrow> nat" where
  "charCode c = of_char c"

definition toUpperChar :: "char \<Rightarrow> char" where
  "toUpperChar c = (if 97 \<le> charCode c \<and> charCode c \<le> 122 then char_of (charCode c - 32) else c)"

definition toUpperCase :: "string \<Rightarrow> string" where
  "toUpperCase s = map toUpperChar s"

text \<open>
  \<open>s.slice(start, end)\<close>: a negative index counts from the end of the string, every index
  is cut to the range \<open>0 .. length s\<close>, and an empty range gives the empty string.
  \<open>sliceFrom\<close> is the call with one argument.
\<close>

definition sliceIndex :: "string \<Rightarrow> int \<Rightarrow> nat" where
  "sliceIndex s i = (if i < 0 then nat (max (int (length s) + i) 0) else min (nat i) (length s))"

definition slice :: "string \<Rightarrow> int \<Rightarrow> int \<Rightarrow> string" where
  "slice s from to = take (sliceIndex s to - sliceIndex s from) (drop (sliceIndex s from) s)"

definition sliceFrom :: "string \<Rightarrow> int \<Rightarrow> string" where
  "sliceFrom s from = drop (sliceIndex s from) s"

text \<open>
  \<open>parseInt\<close> with no radix: leading white space is skipped, one sign is read, then the
  longest run of decimal digits; no digit at all gives \<open>NaN\<close>, which is \<open>None\<close> here.
  The hexadecimal prefix is left out: every call below passes one character or a string
  of digits.
\<close>

definition isDigit :: "char \<Rightarrow> bool" where
  "isDigit c = (48 \<le> charCode c \<and> charCode c \<le> 57)"

definition isWhiteSpace :: "char \<Rightarrow> bool" where
  "isWhiteSpace c = (charCode c \<in> {9, 10, 11, 12, 13, 32})"

definition digitsValue :: "string \<Rightarrow> nat" where
  "digitsValue ds = foldl (\<lambda>acc c. 10 * acc + (charCode c - 48)) 0 ds"

definition parseInt :: "string \<Rightarrow> int option" where
  "parseInt s =
     (let s1 = dropWhile isWhiteSpace s;
          negative = (s1 \<noteq> [] \<and> hd s1 = CHR ''-'');
          s2 = (if s1 \<noteq> [] \<and> (hd s1 = CHR ''-'' \<or> hd s1 = CHR ''+'') then tl s1 else s1);
          ds = takeWhile isDigit s2
      in if ds = [] then None
         else Some (if negative then - int (digitsValue ds) else int (digitsValue ds)))"

section \<open>Position decoder\<close>

record YardCoordinate =
  row :: int
  tier :: int

text \<open>\<open>parsePosition\<close> of the planning view: row from the second-to-last character, tier
  from the last one, both capped.\<close>

definition parsePosition :: "string \<Rightarrow> YardCoordinate" where
  "parsePosition loc =
     (if loc = [] \<or> length loc < 2 then \<lparr>row = 0, tier = 1\<rparr>
      else
        let tierChar = sliceFrom loc (-1);
            rowChar = toUpperCase (slice loc (-2) (-1));
            tier0 = (case parseInt tierChar of None \<Rightarrow> 1 | Some t \<Rightarrow> t);
            code = charCode (hd rowChar);
            row0 = (if 65 \<le> code \<and> code \<le> 90 then int code - 65
                    else (case parseInt rowChar of
                            None \<Rightarrow> 0
                          | Some num \<Rightarrow> if num > 0 then num - 1 else 0))
        in \<lparr>row = max 0 (min 5 row0), tier = max 1 (min 6 tier0)\<rparr>)"

text \<open>\<open>getRowIndex\<close> and \<open>getTier\<close> of the yard map view. Their comments read
  "Returns 0-5 index (A=0, F=5)" and "Helper to parse Tier (Number 1-6)".\<close>

definition getRowIndex :: "string \<Rightarrow> int" where
  "getRowIndex loc =
     (if loc = [] \<or> length loc < 2 then 0
      else
        let rowChar = toUpperCase (slice loc (-2) (-1));
            code = charCode (hd rowChar)
        in if 65 \<le> code \<and> code \<le> 90 then int code - 65
           else (case parseInt rowChar of
                   None \<Rightarrow> 0
                 | Some num \<Rightarrow> if num > 0 then num - 1 else 0))"

definition getTier :: "string \<Rightarrow> int" where
  "getTier loc =
     (if loc = [] then 1
      else (case parseInt (sliceFrom loc (-1)) of None \<Rightarrow> 1 | Some t \<Rightarrow> t))"

section \<open>Planning queue manager\<close>

text \<open>The \<open>StockItem\<close> of \<open>types.ts\<close>; its field \<open>id\<close> is \<open>stock_id\<close> here.\<close>

record StockItem =
  stock_id :: string
  cntr :: string
  local :: string
  quadra :: string
  bay :: string
  pos :: string
  servico :: string
  quadraBase :: string

text \<open>\<open>StackerId\<close> is the type \<open>'1' | '2' | '3'\<close>; \<open>PlanningState\<close> is a record of the three
  queues, a function of the stacker here.\<close>

datatype StackerId = S1 | S2 | S3

record PlannerState =
  stockData :: "StockItem list"
  planningState :: "StackerId \<Rightarrow> StockItem list"

text \<open>
  \<open>handleDrop\<close>: the dragged items are read from the drag payload; a payload that does not
  parse (\<open>None\<close>) is caught and nothing changes. Otherwise the items are appended to
  the active stacker's queue and every stock item whose id is among them leaves the pool.
\<close>

definition handleDrop :: "StackerId \<Rightarrow> StockItem list option \<Rightarrow> PlannerState \<Rightarrow> PlannerState" where
  "handleDrop activeStacker payload st =
     (case payload of
        None \<Rightarrow> st
      | Some items \<Rightarrow>
          st\<lparr>planningState :=
               (planningState st)(activeStacker := planningState st activeStacker @ items),
             stockData :=
               filter (\<lambda>s. find (\<lambda>i. stock_id i = stock_id s) items = None) (stockData st)\<rparr>)"

definition handleRemoveFromPlan :: "StackerId \<Rightarrow> string \<Rightarrow> PlannerState \<Rightarrow> PlannerState" where
  "handleRemoveFromPlan activeStacker itemId st =
     (case find (\<lambda>i. stock_id i = itemId) (planningState st activeStacker) of
        None \<Rightarrow> st
      | Some item \<Rightarrow>
          st\<lparr>stockData := stockData st @ [item],
             planningState := (planningState st)(activeStacker :=
                filter (\<lambda>i. stock_id i \<noteq> itemId) (planningState st activeStacker))\<rparr>)"

definition handleClearPlan :: "StackerId \<Rightarrow> PlannerState \<Rightarrow> PlannerState" where
  "handleClearPlan activeStacker st =
     st\<lparr>stockData := stockData st @ planningState st activeStacker,
        planningState := (planningState st)(activeStacker := [])\<rparr>"

text \<open>The three operations as calls, and a sequence of calls run from a state.\<close>

datatype PlanOp =
    Assign "StockItem list" StackerId
  | Unassign string StackerId
  | ClearQueue StackerId

fun applyOp :: "PlanOp \<Rightarrow> PlannerState \<Rightarrow> PlannerState" where
  "applyOp (Assign items machineId) st = handleDrop machineId (Some items) st"
| "applyOp (Unassign itemId machineId) st = handleRemoveFromPlan machineId itemId st"
| "applyOp (ClearQueue machineId) st = handleClearPlan machineId st"

fun run :: "PlanOp list \<Rightarrow> PlannerState \<Rightarrow> PlannerState" where
  "run [] st = st"
| "run (op # ops) st = run ops (applyOp op st)"

text \<open>The state after a stock upload: everything in the pool, the three queues empty.\<close>

definition initialState :: "StockItem list \<Rightarrow> PlannerState" where
  "initialState stock = \<lparr>stockData = stock, planningState = (\<lambda>m. [])\<rparr>"

text \<open>Every place an item can be, and the number of places that hold the identity \<open>x\<close>.\<close>

definition allItems :: "PlannerState \<Rightarrow> StockItem list" where
  "allItems st = stockData st @ planningState st S1 @ planningState st S2 @ planningState st S3"

definition allIds :: "PlannerState \<Rightarrow> string list" where
  "allIds st = map stock_id (allItems st)"

definition occurrences :: "PlannerState \<Rightarrow> string \<Rightarrow> nat" where
  "occurrences st x = length (filter (\<lambda>i. stock_id i = x) (allItems st))"

text \<open>
  What the stock tree's drag source guarantees of a drop: the dragged items have pairwise
  different identities and all of them are in the pool. \<open>handleDrop\<close> does not check it.
\<close>

fun opOk :: "PlannerState \<Rightarrow> PlanOp \<Rightarrow> bool" where
  "opOk st (Assign items machineId) =
     (distinct (map stock_id items) \<and>
      list_all (\<lambda>i. stock_id i \<in> set (map stock_id (stockData st))) items)"
| "opOk st (Unassign itemId machineId) = True"
| "opOk st (ClearQueue machineId) = True"

fun callerOk :: "PlannerState \<Rightarrow> PlanOp list \<Rightarrow> bool" where
  "callerOk st [] = True"
| "callerOk st (op # ops) = (opOk st op \<and> callerOk (applyOp op st) ops)"

text \<open>A stock item with a given identity and location, its other fields as the stock upload
  derives them for a container without a schedule.\<close>

definition mkItem :: "string \<Rightarrow> string \<Rightarrow> StockItem" where
  "mkItem code loc =
     \<lparr>stock_id = code, cntr = code, local = loc, quadra = take 2 loc, bay = take 4 loc,
      pos = sliceFrom loc (-2), servico = ''Sem Agendamento'', quadraBase = ''N/I''\<rparr>"

section \<open>Yard grid builder of the planning view\<close>

text \<open>
  The fine grid of one bay: six arrays of six cells, \<open>grid[visualTier][visualRow]\<close>, a
  cell holding an item or \<open>null\<close>. Visual tier 0 is tier 6, visual tier 5 is tier 1.
\<close>

type_synonym Grid = "StockItem option list list"

definition emptyGrid :: Grid where
  "emptyGrid = replicate 6 (replicate 6 None)"

definition setCell :: "Grid \<Rightarrow> nat \<Rightarrow> nat \<Rightarrow> StockItem \<Rightarrow> Grid" where
  "setCell grid t r item = grid[t := (grid ! t)[r := Some item]]"

text \<open>The inner loop of the collision branch, \<open>for (r = 0; r < 6; r++)\<close>, from column \<open>r\<close>
  on: the first empty cell of row \<open>t\<close> takes the item. The result carries \<open>placed\<close>.\<close>

function scanRow :: "Grid \<Rightarrow> StockItem \<Rightarrow> nat \<Rightarrow> nat \<Rightarrow> Grid \<times> bool" where
  "scanRow grid item t r =
     (if r < 6
      then (if grid ! t ! r = None then (setCell grid t r item, True)
            else scanRow grid item t (r + 1))
      else (grid, False))"
  by pat_completeness auto
termination
  by (relation "measure (\<lambda>(grid, item, t, r). 6 - r)") auto

text \<open>The outer loop, \<open>for (t = 5; t >= 0; t--)\<close>, from \<open>t\<close> on, leaving once \<open>placed\<close>.\<close>

function scanTiers :: "Grid \<Rightarrow> StockItem \<Rightarrow> bool \<Rightarrow> int \<Rightarrow> Grid \<times> bool" where
  "scanTiers grid item placed t =
     (if t \<ge> 0
      then (if placed then (grid, placed)
            else (case scanRow grid item (nat t) 0 of
                    (grid', placed') \<Rightarrow> scanTiers grid' item placed' (t - 1)))
      else (grid, placed))"
  by pat_completeness auto
termination
  by (relation "measure (\<lambda>(grid, item, placed, t). nat (t + 1))") auto

text \<open>The body of \<open>bayItems.forEach\<close>: the item goes to its own cell when that is empty,
  through the collision branch otherwise.\<close>

definition placeItem :: "Grid \<Rightarrow> StockItem \<Rightarrow> Grid" where
  "placeItem grid item =
     (let c = parsePosition (local item);
          visualRow = row c;
          visualTier = 6 - tier c
      in if visualTier \<ge> 0 \<and> visualTier < 6 \<and> visualRow \<ge> 0 \<and> visualRow < 6
         then (if grid ! nat visualTier ! nat visualRow = None
               then setCell grid (nat visualTier) (nat visualRow) item
               else fst (scanTiers grid item False 5))
         else grid)"

definition buildGrid :: "StockItem list \<Rightarrow> Grid" where
  "buildGrid bayItems = foldl placeItem emptyGrid bayItems"

text \<open>The scan order of the collision branch as a list of cells, and its first empty cell.\<close>

definition scanOrder :: "(nat \<times> nat) list" where
  "scanOrder = concat (map (\<lambda>t. map (\<lambda>r. (t, r)) [0..<6]) (rev [0..<6]))"

definition firstEmpty :: "Grid \<Rightarrow> (nat \<times> nat) option" where
  "firstEmpty grid = find (\<lambda>(t, r). grid ! t ! r = None) scanOrder"

text \<open>The order the specification words give, from the highest tier (tier 6, visual tier 0)
  downward and from the leftmost row to the right, and its first empty cell.\<close>

definition spec_scanOrder :: "(nat \<times> nat) list" where
  "spec_scanOrder = concat (map (\<lambda>tier. map (\<lambda>r. (6 - tier, r)) [0..<6]) (rev [1..<7]))"

definition spec_firstEmpty :: "Grid \<Rightarrow> (nat \<times> nat) option" where
  "spec_firstEmpty grid = find (\<lambda>(t, r). grid ! t ! r = None) spec_scanOrder"

definition hasFree :: "Grid \<Rightarrow> bool" where
  "hasFree grid = list_ex (\<lambda>t. list_ex (\<lambda>r. grid ! t ! r = None) [0..<6]) [0..<6]"

text \<open>The cells the outer loop visits from visual tier \<open>k - 1\<close> down, and the shape of a grid.\<close>

definition cellsFrom :: "nat \<Rightarrow> (nat \<times> nat) list" where
  "cellsFrom k = concat (map (\<lambda>t. map (\<lambda>r. (t, r)) [0..<6]) (rev [0..<k]))"

definition wfGrid :: "Grid \<Rightarrow> bool" where
  "wfGrid grid = (length grid = 6 \<and> (\<forall>cells \<in> set grid. length cells = 6))"

section \<open>Estimated time of a queue position\<close>

record StackerConfig =
  start :: string
  mph :: int

text \<open>
  \<open>new Date(`2026-01-01T${start}:00`)\<close>: the start is the value of a time input, \<open>HH:MM\<close>,
  read as local time of the reference day. The result is the hour and the minute of the
  start; \<open>24:00\<close> is allowed and is the midnight that ends the reference day. Anything
  that is not of that form is an invalid date, \<open>None\<close>.
\<close>

definition parseStart :: "string \<Rightarrow> (int \<times> int) option" where
  "parseStart s =
     (case s of
        [h1, h2, c, m1, m2] \<Rightarrow>
          (if isDigit h1 \<and> isDigit h2 \<and> c = CHR '':'' \<and> isDigit m1 \<and> isDigit m2
           then (let hh = int (digitsValue [h1, h2]); mm = int (digitsValue [m1, m2])
                 in if (hh < 24 \<and> mm < 60) \<or> (hh = 24 \<and> mm = 0) then Some (hh, mm) else None)
           else None)
      | _ \<Rightarrow> None)"

text \<open>
  The numbers of the program are IEEE 754 doubles. A finite double is a rational
  \<open>m * 2 ^ e\<close> with \<open>m\<close> below \<open>2 ^ 53\<close>, and each arithmetic operation gives the double
  nearest to the exact result, ties to the even \<open>m\<close>. \<open>ilog2 x\<close> is the exponent of the
  leading bit of a positive \<open>x\<close>. The range of the exponent is not modelled: the values
  below stay far from overflow and from the subnormal numbers.
\<close>

definition ilog2 :: "rat \<Rightarrow> int" where
  "ilog2 x =
     (case quotient_of x of
        (a, b) \<Rightarrow> (let k = bitlen a - bitlen b in if 2 powi k \<le> x then k else k - 1))"

definition roundToEven :: "rat \<Rightarrow> int" where
  "roundToEven q =
     (let f = \<lfloor>q\<rfloor>; d = q - of_int f
      in if d < 1 / 2 then f else if 1 / 2 < d then f + 1 else if even f then f else f + 1)"

definition toDouble :: "rat \<Rightarrow> rat" where
  "toDouble x =
     (if x = 0 then 0
      else let e = ilog2 \<bar>x\<bar> - 52
           in sgn x * of_int (roundToEven (\<bar>x\<bar> / 2 powi e)) * 2 powi e)"

definition doubleDiv :: "rat \<Rightarrow> rat \<Rightarrow> rat" where
  "doubleDiv a b = toDouble (a / b)"

definition doubleMul :: "rat \<Rightarrow> rat \<Rightarrow> rat" where
  "doubleMul a b = toDouble (a * b)"

definition doubleAdd :: "rat \<Rightarrow> rat \<Rightarrow> rat" where
  "doubleAdd a b = toDouble (a + b)"

text \<open>\<open>setMinutes\<close> drops the fraction of its argument, toward zero.\<close>

definition toInteger :: "rat \<Rightarrow> int" where
  "toInteger q = (if q \<ge> 0 then \<lfloor>q\<rfloor> else \<lceil>q\<rceil>)"

text \<open>
  A date is valid up to 8.64e15 milliseconds on either side of the epoch. In minutes
  since the midnight that begins the reference day, 1767225600000 milliseconds after the
  epoch, these are the two bounds for a zone at UTC; another zone moves both by its
  offset.
\<close>

definition validMinutes :: "int \<Rightarrow> bool" where
  "validMinutes m = (- 144029453760 \<le> m \<and> m \<le> 143970546240)"

text \<open>
  The date after \<open>setMinutes\<close>, in minutes since the local midnight that begins the
  reference day; \<open>None\<close> is an invalid date. \<open>mph\<close> is \<open>activeConfig.mph || 1\<close>, and
  \<open>index * (60 / mph)\<close> and the sum with \<open>getMinutes()\<close> are operations on doubles.
  Daylight saving shifts are left out.
\<close>

definition etaMinutes :: "StackerConfig \<Rightarrow> nat \<Rightarrow> int option" where
  "etaMinutes activeConfig index =
     (let rate = (if mph activeConfig = 0 then 1 else mph activeConfig) in
      case parseStart (start activeConfig) of
        None \<Rightarrow> None
      | Some (hh, mm) \<Rightarrow>
          (let minutesToAdd = doubleMul (of_nat index) (doubleDiv 60 (of_int rate));
               minutes = hh * 60 + toInteger (doubleAdd (of_int mm) minutesToAdd)
           in if validMinutes minutes then Some minutes else None))"

text \<open>\<open>getEstimatedTime\<close>: the hour and the minute that \<open>toLocaleTimeString\<close> shows; the
  locale's punctuation is left out, and \<open>None\<close> is the text of an invalid date.\<close>

definition getEstimatedTime :: "StackerConfig \<Rightarrow> nat \<Rightarrow> (int \<times> int) option" where
  "getEstimatedTime activeConfig index =
     map_option (\<lambda>m. (m div 60 mod 24, m mod 60)) (etaMinutes activeConfig index)"


section \<open>Sorting and bay order\<close>

text \<open>
  \<open>Array.prototype.sort\<close> with a comparator is stable: \<open>a\<close> comes before \<open>b\<close> when the
  comparator is negative, after it when positive, and equal elements keep their order.
  For a consistent comparator every stable sort gives the same array; it is modelled by
  the stable insertion sort.
\<close>

fun insertBy :: "('a \<Rightarrow> 'a \<Rightarrow> int) \<Rightarrow> 'a \<Rightarrow> 'a list \<Rightarrow> 'a list" where
  "insertBy cmp x [] = [x]"
| "insertBy cmp x (y # ys) = (if cmp x y \<le> 0 then x # y # ys else y # insertBy cmp x ys)"

definition sortBy :: "('a \<Rightarrow> 'a \<Rightarrow> int) \<Rightarrow> 'a list \<Rightarrow> 'a list" where
  "sortBy cmp xs = foldr (insertBy cmp) xs []"

text \<open>The comparator of \<open>sort()\<close> with no argument: strings by their code units.\<close>

fun strLess :: "string \<Rightarrow> string \<Rightarrow> bool" where
  "strLess [] [] = False"
| "strLess [] (y # ys) = True"
| "strLess (x # xs) [] = False"
| "strLess (x # xs) (y # ys) =
     (charCode x < charCode y \<or> (charCode x = charCode y \<and> strLess xs ys))"

definition strLe :: "string \<Rightarrow> string \<Rightarrow> bool" where
  "strLe a b = (\<not> strLess b a)"

definition defaultCompare :: "string \<Rightarrow> string \<Rightarrow> int" where
  "defaultCompare a b = (if strLess a b then -1 else if strLess b a then 1 else 0)"

text \<open>
  The yard map orders the bay labels of a quadra with its own comparator: \<open>numA\<close> and
  \<open>numB\<close> are \<open>parseInt\<close> of the labels with every non-digit removed; when both are numbers
  their difference decides, \<open>localeCompare\<close> otherwise. The collation of the locale is a
  parameter.
\<close>

text \<open>
  The number read is a floating-point number: for a label of at most fifteen digits it is
  the whole number itself, below \<open>2 ^ 53\<close>, and the difference of two such numbers is exact.
\<close>

definition bayNumber :: "string \<Rightarrow> int option" where
  "bayNumber a = parseInt (filter isDigit a)"

definition compareBays :: "(string \<Rightarrow> string \<Rightarrow> int) \<Rightarrow> string \<Rightarrow> string \<Rightarrow> int" where
  "compareBays localeCompare a b =
     (case (bayNumber a, bayNumber b) of
        (Some numA, Some numB) \<Rightarrow> numA - numB
      | _ \<Rightarrow> localeCompare a b)"

text \<open>
  A comparator is consistent for the elements of an array when it is zero on equal
  arguments and its three outcomes, zero, negative and positive, are each transitive, zero
  being symmetric as well. For such a comparator the sorted array is the one above. For
  any other the language leaves the order to the implementation: \<open>None\<close>. The two
  comparators of the aggregator, differences of whole numbers, are consistent for every
  array.
\<close>

definition consistentOn :: "('a \<Rightarrow> 'a \<Rightarrow> int) \<Rightarrow> 'a list \<Rightarrow> bool" where
  "consistentOn cmp xs =
     list_all (\<lambda>a. cmp a a = 0 \<and>
       list_all (\<lambda>b. (if cmp a b = 0 then cmp b a = 0 else True) \<and>
         list_all (\<lambda>c.
           (if cmp a b = 0 \<and> cmp b c = 0 then cmp a c = 0 else True) \<and>
           (if cmp a b < 0 \<and> cmp b c < 0 then cmp a c < 0 else True) \<and>
           (if cmp a b > 0 \<and> cmp b c > 0 then cmp a c > 0 else True)) xs) xs) xs"

definition sortWith :: "('a \<Rightarrow> 'a \<Rightarrow> int) \<Rightarrow> 'a list \<Rightarrow> 'a list option" where
  "sortWith cmp xs = (if consistentOn cmp xs then Some (sortBy cmp xs) else None)"

definition sortedBays ::
  "(string \<Rightarrow> string \<Rightarrow> int) \<Rightarrow> string list \<Rightarrow> string list option" where
  "sortedBays localeCompare bayKeys = sortWith (compareBays localeCompare) bayKeys"

text \<open>The planning view's quadra map orders them with \<open>Object.keys(bays).sort()\<close>.\<close>

definition quadraBayOrder :: "string list \<Rightarrow> string list" where
  "quadraBayOrder bayKeys = sortBy defaultCompare bayKeys"

section \<open>Aggregator of the dashboard\<close>

text \<open>
  A \<open>Date\<close> holds a time value in milliseconds, or \<open>NaN\<close> when it is invalid (\<open>None\<close>).
  The \<open>ScheduleItem\<close> of \<open>types.ts\<close>; its fields \<open>id\<close>, \<open>cntr\<close>, \<open>servico\<close> and \<open>_rawDate\<close>
  are \<open>sched_id\<close>, \<open>sched_cntr\<close>, \<open>sched_servico\<close> and \<open>rawDate\<close> here, and \<open>null\<close> is \<open>None\<close>.
\<close>

datatype JsDate = Date (getTime: "int option")

record ScheduleItem =
  sched_id :: string
  importador :: string
  sched_cntr :: string
  tipoDoc :: string
  quadraFull :: string
  sched_servico :: string
  remocoes :: int
  agendamentoFull :: string
  rawDate :: "JsDate option"

record ServiceStatData =
  svc_count :: nat
  svc_remocoes :: int
  svc_dates :: "int option list"
  late :: nat
  onTime :: nat

record QuadraStatData =
  q_count :: nat
  q_remocoes :: int
  q_dates :: "int option list"

datatype JsError = TypeError

text \<open>
  The accumulators are object literals, \<open>{}\<close>, used as dictionaries. Their own properties
  are an association list in insertion order. A read \<open>acc[key]\<close> of a key that is not an
  own property goes to \<open>Object.prototype\<close>, whose property names are listed here: for
  those the read gives a function or an object, which is truthy, never \<open>undefined\<close>.
\<close>

definition objectPrototypeKeys :: "string list" where
  "objectPrototypeKeys =
     [''constructor'', ''__defineGetter__'', ''__defineSetter__'', ''hasOwnProperty'',
      ''__lookupGetter__'', ''__lookupSetter__'', ''isPrototypeOf'', ''propertyIsEnumerable'',
      ''toString'', ''valueOf'', ''__proto__'', ''toLocaleString'']"

definition ensureKey :: "string \<Rightarrow> 'v \<Rightarrow> (string \<times> 'v) list \<Rightarrow> (string \<times> 'v) list" where
  "ensureKey k v obj = (if map_of obj k = None then obj @ [(k, v)] else obj)"

definition adjustKey :: "string \<Rightarrow> ('v \<Rightarrow> 'v) \<Rightarrow> (string \<times> 'v) list \<Rightarrow> (string \<times> 'v) list" where
  "adjustKey k f obj = map (\<lambda>(k', v). if k' = k then (k', f v) else (k', v)) obj"

text \<open>\<open>reduce\<close> with a callback that may throw: the first error ends the fold.\<close>

fun reduceE :: "('a \<Rightarrow> 'b \<Rightarrow> JsError + 'a) \<Rightarrow> 'a \<Rightarrow> 'b list \<Rightarrow> JsError + 'a" where
  "reduceE f acc [] = Inr acc"
| "reduceE f acc (x # xs) = (case f acc x of Inl e \<Rightarrow> Inl e | Inr acc' \<Rightarrow> reduceE f acc' xs)"

text \<open>\<open>curr.remocoes || 0\<close> and \<open>curr._rawDate < now\<close>; a comparison with \<open>NaN\<close> is false.\<close>

definition remocoesOr0 :: "ScheduleItem \<Rightarrow> int" where
  "remocoesOr0 cur = (if remocoes cur = 0 then 0 else remocoes cur)"

definition dateBefore :: "JsDate \<Rightarrow> int \<Rightarrow> bool" where
  "dateBefore d now = (case getTime d of None \<Rightarrow> False | Some t \<Rightarrow> t < now)"

definition serviceKey :: "ScheduleItem \<Rightarrow> string" where
  "serviceKey cur = (if sched_servico cur = [] then ''OUTROS'' else sched_servico cur)"

text \<open>What the callback of \<open>serviceStats\<close> does to the entry of the item's service.\<close>

definition serviceUpdate :: "int \<Rightarrow> ScheduleItem \<Rightarrow> ServiceStatData \<Rightarrow> ServiceStatData" where
  "serviceUpdate now cur d =
     (let d1 = d\<lparr>svc_count := svc_count d + 1\<rparr>;
          d2 = d1\<lparr>svc_remocoes := svc_remocoes d1 + remocoesOr0 cur\<rparr>
      in case rawDate cur of
           Some date \<Rightarrow>
             (let d3 = d2\<lparr>svc_dates := svc_dates d2 @ [getTime date]\<rparr>
              in if dateBefore date now then d3\<lparr>late := late d3 + 1\<rparr>
                 else d3\<lparr>onTime := onTime d3 + 1\<rparr>)
         | None \<Rightarrow> d2\<lparr>onTime := onTime d2 + 1\<rparr>)"

text \<open>
  The callback of \<open>serviceStats\<close>. When the service name is a property name of
  \<open>Object.prototype\<close>, \<open>!acc[svc]\<close> is false and no entry is created; the counters are
  then written on the inherited value, and \<open>acc[svc].dates.push\<close> throws, \<open>dates\<close> being
  \<open>undefined\<close> there, when the item has a date.
\<close>

definition serviceStep ::
  "int \<Rightarrow> (string \<times> ServiceStatData) list \<Rightarrow> ScheduleItem \<Rightarrow> JsError + (string \<times> ServiceStatData) list" where
  "serviceStep now acc cur =
     (let svc = serviceKey cur in
      if svc \<in> set objectPrototypeKeys
      then (case rawDate cur of Some date \<Rightarrow> Inl TypeError | None \<Rightarrow> Inr acc)
      else Inr (adjustKey svc (serviceUpdate now cur)
                  (ensureKey svc \<lparr>svc_count = 0, svc_remocoes = 0, svc_dates = [], late = 0, onTime = 0\<rparr> acc)))"

text \<open>
  \<open>serviceStats\<close> over \<open>filteredData\<close>, the items the date filter has let through (all of them
  when no date is selected), at the evaluation instant \<open>now\<close>: the entries sorted by
  descending \<open>remocoes\<close>. The \<open>dateLabel\<close> of each entry, a text made from its dates, is left
  out; so is the place of number-like keys in \<open>Object.entries\<close>.
\<close>

definition serviceStats :: "int \<Rightarrow> ScheduleItem list \<Rightarrow> JsError + (string \<times> ServiceStatData) list" where
  "serviceStats now filteredData =
     (case reduceE (serviceStep now) [] filteredData of
        Inl e \<Rightarrow> Inl e
      | Inr stats \<Rightarrow> Inr (sortBy (\<lambda>a b. svc_remocoes (snd b) - svc_remocoes (snd a)) stats))"

definition quadraKey :: "ScheduleItem \<Rightarrow> string" where
  "quadraKey cur =
     (if quadraFull cur \<noteq> [] \<and> length (quadraFull cur) \<ge> 2
      then toUpperCase (take 2 (quadraFull cur))
      else (if quadraFull cur = [] then ''??'' else quadraFull cur))"

definition quadraUpdate :: "ScheduleItem \<Rightarrow> QuadraStatData \<Rightarrow> QuadraStatData" where
  "quadraUpdate cur d =
     (let d1 = d\<lparr>q_count := q_count d + 1\<rparr>;
          d2 = d1\<lparr>q_remocoes := q_remocoes d1 + remocoesOr0 cur\<rparr>
      in case rawDate cur of
           Some date \<Rightarrow> d2\<lparr>q_dates := q_dates d2 @ [getTime date]\<rparr>
         | None \<Rightarrow> d2)"

definition quadraStep ::
  "(string \<times> QuadraStatData) list \<Rightarrow> ScheduleItem \<Rightarrow> JsError + (string \<times> QuadraStatData) list" where
  "quadraStep acc cur =
     (let quadra = quadraKey cur in
      if quadra \<in> set objectPrototypeKeys
      then (case rawDate cur of Some date \<Rightarrow> Inl TypeError | None \<Rightarrow> Inr acc)
      else Inr (adjustKey quadra (quadraUpdate cur)
                  (ensureKey quadra \<lparr>q_count = 0, q_remocoes = 0, q_dates = []\<rparr> acc)))"

definition quadraStats :: "ScheduleItem list \<Rightarrow> JsError + (string \<times> QuadraStatData) list" where
  "quadraStats filteredData =
     (case reduceE quadraStep [] filteredData of
        Inl e \<Rightarrow> Inl e
      | Inr stats \<Rightarrow> Inr (sortBy (\<lambda>a b. q_remocoes (snd b) - q_remocoes (snd a)) stats))"

text \<open>\<open>totalRemocoes\<close>, the sum of the summary card.\<close>

definition totalRemocoes :: "ScheduleItem list \<Rightarrow> int" where
  "totalRemocoes filteredData = foldl (\<lambda>sum item. sum + remocoesOr0 item) 0 filteredData"

text \<open>An item is late at \<open>now\<close> when it has a timestamp strictly before \<open>now\<close>.\<close>

definition isLate :: "int \<Rightarrow> ScheduleItem \<Rightarrow> bool" where
  "isLate now item =
     (case rawDate item of
        None \<Rightarrow> False
      | Some date \<Rightarrow> (case getTime date of None \<Rightarrow> False | Some t \<Rightarrow> t < now))"

text \<open>A schedule item with a given identity, service, quadra label, removal count and date,
  its other fields as the schedule upload fills them when the sheet has none.\<close>

definition mkSchedule :: "string \<Rightarrow> string \<Rightarrow> string \<Rightarrow> int \<Rightarrow> JsDate option \<Rightarrow> ScheduleItem" where
  "mkSchedule code service quadraLabel n date =
     \<lparr>sched_id = code, importador = ''DIVERSOS'', sched_cntr = code, tipoDoc = ''-'',
      quadraFull = quadraLabel, sched_servico = service, remocoes = n,
      agendamentoFull = ''S/D'', rawDate = date\<rparr>"

text \<open>The entry of service \<open>k\<close> after the items \<open>ys\<close>: the updates of the items of that service,
  in order, from the zero entry.\<close>

definition zeroStat :: ServiceStatData where
  "zeroStat = \<lparr>svc_count = 0, svc_remocoes = 0, svc_dates = [], late = 0, onTime = 0\<rparr>"

definition statFor :: "int \<Rightarrow> string \<Rightarrow> ScheduleItem list \<Rightarrow> ServiceStatData" where
  "statFor now k ys = foldl (\<lambda>d i. if serviceKey i = k then serviceUpdate now i d else d) zeroStat ys"

definition statsInv :: "int \<Rightarrow> (string \<times> ServiceStatData) list \<Rightarrow> ScheduleItem list \<Rightarrow> bool" where
  "statsInv now acc ys =
     (distinct (map fst acc) \<and>
      (\<forall>k d. (k, d) \<in> set acc \<longrightarrow> k \<notin> set objectPrototypeKeys \<and> d = statFor now k ys) \<and>
      (\<forall>i \<in> set ys. serviceKey i \<notin> set objectPrototypeKeys \<longrightarrow> serviceKey i \<in> set (map fst acc)))"

section \<open>Properties of the position decoder\<close>

lemmas decode_defs = toUpperCase_def toUpperChar_def charCode_def parseInt_def
  isWhiteSpace_def isDigit_def digitsValue_def

lemma sliceIndex_neg:
  "0 < k \<Longrightarrow> k \<le> length s \<Longrightarrow> sliceIndex s (- int k) = length s - k"
  by (simp add: sliceIndex_def nat_diff_distrib')

lemma take1_drop: "i < length s \<Longrightarrow> take (Suc 0) (drop i s) = [s ! i]"
  by (simp add: take_Suc_conv_app_nth)

lemma slice_penultimate:
  assumes "2 \<le> length loc"
  shows "slice loc (-2) (-1) = [loc ! (length loc - 2)]"
proof -
  have a: "sliceIndex loc (-2) = length loc - 2"
    using sliceIndex_neg[of 2 loc] assms by simp
  have b: "sliceIndex loc (-1) = length loc - 1"
    using sliceIndex_neg[of 1 loc] assms by simp
  have c: "length loc - 1 - (length loc - 2) = Suc 0"
    using assms by simp
  show ?thesis
    unfolding slice_def a b c using assms by (simp add: take1_drop)
qed

lemma getRowIndex_char:
  assumes "2 \<le> length loc"
  shows "getRowIndex loc =
           (let rowChar = toUpperCase [loc ! (length loc - 2)];
                code = charCode (hd rowChar)
            in if 65 \<le> code \<and> code \<le> 90 then int code - 65
               else (case parseInt rowChar of
                       None \<Rightarrow> 0
                     | Some num \<Rightarrow> if num > 0 then num - 1 else 0))"
  using assms unfolding getRowIndex_def slice_penultimate[OF assms] by auto

text \<open>The planning view's row is the yard map's row, capped to \<open>0 .. 5\<close>.\<close>

lemma parsePosition_row: "row (parsePosition loc) = max 0 (min 5 (getRowIndex loc))"
  by (simp add: parsePosition_def getRowIndex_def Let_def)

lemma parsePosition_tier: "tier (parsePosition loc) = (if length loc < 2 then 1 else max 1 (min 6 (getTier loc)))"
  by (auto simp add: parsePosition_def getTier_def Let_def)

text \<open>\<open>parsePosition\<close> keeps every coordinate in range, whatever the string.\<close>

lemma parsePosition_in_range:
  "0 \<le> row (parsePosition loc) \<and> row (parsePosition loc) \<le> 5 \<and>
   1 \<le> tier (parsePosition loc) \<and> tier (parsePosition loc) \<le> 6"
  by (simp add: parsePosition_def Let_def)

text \<open>
  Claim C4: every decode function keeps the tier in \<open>1 .. 6\<close> and the row in \<open>0 .. 5\<close> on
  location strings of length at least 2. \<open>parsePosition\<close> does (lemma
  \<open>parsePosition_in_range\<close>). The yard map's \<open>getRowIndex\<close> and \<open>getTier\<close> have no cap:
  on \<open>A4Z9\<close> the row index is 25 and the tier is 9, against their own comments.
\<close>

theorem layout_decoders_not_clamped:
  "getRowIndex ''A4Z9'' = 25 \<and> getTier ''A4Z9'' = 9 \<and>
   row (parsePosition ''A4Z9'') = 5 \<and> tier (parsePosition ''A4Z9'') = 6"
  by code_simp

text \<open>
  Claim C10: on a location string of length at least 2 whose second-to-last character is
  the digit \<open>0\<close>, the row index is 0, the row of the character \<open>1\<close> and of the letter
  \<open>A\<close>: the three characters decode to the same row, in both decoders.
\<close>

theorem row_zero_digit_default:
  assumes "2 \<le> length loc"
    and "loc ! (length loc - 2) \<in> {CHR ''0'', CHR ''1'', CHR ''A''}"
  shows "row (parsePosition loc) = 0 \<and> getRowIndex loc = 0"
proof -
  have "getRowIndex loc = 0"
    using assms(2) unfolding getRowIndex_char[OF assms(1)]
    by (auto simp add: decode_defs Let_def)
  then show ?thesis
    by (simp add: parsePosition_row)
qed

theorem row_zero_digit_default_witness:
  "2 \<le> length ''Q102'' \<and> ''Q102'' ! (length ''Q102'' - 2) \<in> {CHR ''0'', CHR ''1'', CHR ''A''} \<and>
   row (parsePosition ''Q102'') = 0 \<and> getRowIndex ''Q102'' = 0"
  using row_zero_digit_default[of "''Q102''"] by simp

section \<open>Properties of the planning queue manager\<close>

lemma find_None_ids: "(find (\<lambda>i. stock_id i = x) items = None) = (x \<notin> set (map stock_id items))"
  by (auto simp add: find_None_iff)

lemma mset_allIds:
  "mset (allIds st) = mset (map stock_id (stockData st))
     + (mset (map stock_id (planningState st S1))
     + (mset (map stock_id (planningState st S2))
     + mset (map stock_id (planningState st S3))))"
  by (simp add: allIds_def allItems_def)

lemma mset_split_distinct:
  assumes "distinct P" "distinct I" "set I \<subseteq> set P"
  shows "mset (filter (\<lambda>x. x \<notin> set I) P) + mset I = mset P"
proof -
  have "distinct (filter (\<lambda>x. x \<in> set I) P)" using assms(1) by simp
  moreover have "set (filter (\<lambda>x. x \<in> set I) P) = set I" using assms(3) by auto
  ultimately have "mset (filter (\<lambda>x. x \<in> set I) P) = mset I"
    using set_eq_iff_mset_eq_distinct[of "filter (\<lambda>x. x \<in> set I) P" I] assms(2) by blast
  moreover have "mset (filter (\<lambda>x. x \<notin> set I) P) + mset (filter (\<lambda>x. x \<in> set I) P) = mset P"
    by (induction P) auto
  ultimately show ?thesis by simp
qed

lemma stock_after_drop:
  "map stock_id (stockData (handleDrop m (Some items) st)) =
     filter (\<lambda>x. x \<notin> set (map stock_id items)) (map stock_id (stockData st))"
  by (simp add: handleDrop_def find_None_ids filter_map comp_def)

lemma queue_after_drop:
  "planningState (handleDrop m (Some items) st) m' =
     (if m' = m then planningState st m @ items else planningState st m')"
  by (simp add: handleDrop_def)

lemma mset_drop:
  assumes "distinct (allIds st)" "opOk st (Assign items m)"
  shows "mset (allIds (handleDrop m (Some items) st)) = mset (allIds st)"
proof -
  have d: "distinct (map stock_id (stockData st))"
    using assms(1) by (simp add: allIds_def allItems_def)
  have s: "set (map stock_id items) \<subseteq> set (map stock_id (stockData st))"
    using assms(2) by (auto simp add: list_all_iff)
  have "mset (filter (\<lambda>x. x \<notin> set (map stock_id items)) (map stock_id (stockData st)))
          + mset (map stock_id items) = mset (map stock_id (stockData st))"
    using mset_split_distinct[OF d _ s] assms(2) by simp
  then show ?thesis
    unfolding mset_allIds stock_after_drop queue_after_drop
    by (cases m) (simp_all add: ac_simps)
qed

lemma mset_remove_one:
  assumes "distinct (map f q)" "item \<in> set q"
  shows "mset (map f (filter (\<lambda>i. f i \<noteq> f item) q)) + {#f item#} = mset (map f q)"
  using assms
proof (induction q)
  case Nil then show ?case by simp
next
  case (Cons a q)
  show ?case
  proof (cases "a = item")
    case True
    have "f item \<notin> f ` set q" using True Cons.prems(1) by simp
    then have "\<forall>i\<in>set q. f i \<noteq> f item" by (metis imageI)
    then have "filter (\<lambda>i. f i \<noteq> f item) q = q" by (simp add: filter_id_conv)
    then show ?thesis using True by simp
  next
    case False
    then have "f a \<noteq> f item" using Cons.prems by auto
    then show ?thesis using Cons False by auto
  qed
qed

lemma mset_remove:
  assumes "distinct (allIds st)"
  shows "mset (allIds (handleRemoveFromPlan m x st)) = mset (allIds st)"
proof (cases "find (\<lambda>i. stock_id i = x) (planningState st m)")
  case None then show ?thesis by (simp add: handleRemoveFromPlan_def)
next
  case (Some item)
  then have i: "item \<in> set (planningState st m)" and x: "x = stock_id item"
    by (auto simp add: find_Some_iff)
  have d: "distinct (map stock_id (planningState st m))"
    using assms by (cases m) (simp_all add: allIds_def allItems_def)
  have e: "mset (map stock_id (filter (\<lambda>i. stock_id i \<noteq> x) (planningState st m))) + {#x#}
             = mset (map stock_id (planningState st m))"
    using mset_remove_one[OF d i] x by simp
  have st': "handleRemoveFromPlan m x st =
               st\<lparr>stockData := stockData st @ [item],
                  planningState := (planningState st)(m :=
                     filter (\<lambda>i. stock_id i \<noteq> x) (planningState st m))\<rparr>"
    using Some by (simp add: handleRemoveFromPlan_def)
  show ?thesis
    unfolding st' mset_allIds using e x
    by (cases m) (simp_all add: ac_simps)
qed

lemma mset_clear: "mset (allIds (handleClearPlan m st)) = mset (allIds st)"
  unfolding mset_allIds by (cases m) (simp_all add: handleClearPlan_def ac_simps)

lemma mset_applyOp:
  assumes "distinct (allIds st)" "opOk st op"
  shows "mset (allIds (applyOp op st)) = mset (allIds st)"
  using assms by (cases op) (simp_all add: mset_drop mset_remove mset_clear)

lemma mset_run:
  assumes "distinct (allIds st)" "callerOk st ops"
  shows "mset (allIds (run ops st)) = mset (allIds st)"
  using assms
proof (induction ops arbitrary: st)
  case Nil then show ?case by simp
next
  case (Cons op ops)
  have m: "mset (allIds (applyOp op st)) = mset (allIds st)"
    using Cons.prems by (simp add: mset_applyOp)
  then have "distinct (allIds (applyOp op st))"
    using Cons.prems(1) by (metis mset_eq_imp_distinct_iff)
  then show ?case using Cons m by simp
qed

lemma callerOk_take: "callerOk st ops \<Longrightarrow> callerOk st (take n ops)"
proof (induction ops arbitrary: st n)
  case Nil then show ?case by simp
next
  case (Cons op ops) then show ?case by (cases n) simp_all
qed

lemma count_ids: "count (mset (map f xs)) x = length (filter (\<lambda>i. f i = x) xs)"
  by (induction xs) auto

lemma occurrences_count: "occurrences st x = count (mset (allIds st)) x"
  unfolding occurrences_def allIds_def count_ids ..

text \<open>
  Claim C1, as amended: from a state with every item in the pool, pairwise different
  identities and empty queues, after any number of steps of a sequence of Assign, Unassign
  and ClearQueue calls in which every Assign passes pool members with pairwise different
  identities, each identity is in exactly one place: the pool or one position of one queue.
\<close>

theorem planning_exactly_one_place:
  assumes "distinct (map stock_id stock)"
    and "callerOk (initialState stock) ops"
    and "x \<in> set (map stock_id stock)"
  shows "occurrences (run (take n ops) (initialState stock)) x = 1"
proof -
  have a: "allIds (initialState stock) = map stock_id stock"
    by (simp add: allIds_def allItems_def initialState_def)
  have "mset (allIds (run (take n ops) (initialState stock))) = mset (map stock_id stock)"
    using mset_run[of "initialState stock" "take n ops"] assms(1,2) a callerOk_take by simp
  then show ?thesis
    unfolding occurrences_count using assms(1,3) by (simp add: distinct_count_atmost_1)
qed

theorem planning_exactly_one_place_witness:
  "distinct (map stock_id [mkItem ''C1'' ''A4B5'', mkItem ''C2'' ''A4B6'']) \<and>
   callerOk (initialState [mkItem ''C1'' ''A4B5'', mkItem ''C2'' ''A4B6''])
     [Assign [mkItem ''C1'' ''A4B5''] S2, Assign [mkItem ''C2'' ''A4B6''] S1,
      Unassign ''C1'' S2, ClearQueue S1] \<and>
   ''C1'' \<in> set (map stock_id [mkItem ''C1'' ''A4B5'', mkItem ''C2'' ''A4B6'']) \<and>
   occurrences
     (run (take 3 [Assign [mkItem ''C1'' ''A4B5''] S2, Assign [mkItem ''C2'' ''A4B6''] S1,
                   Unassign ''C1'' S2, ClearQueue S1])
          (initialState [mkItem ''C1'' ''A4B5'', mkItem ''C2'' ''A4B6''])) ''C1'' = 1"
proof -
  have h1: "distinct (map stock_id [mkItem ''C1'' ''A4B5'', mkItem ''C2'' ''A4B6''])"
    by (simp add: mkItem_def)
  have h2: "callerOk (initialState [mkItem ''C1'' ''A4B5'', mkItem ''C2'' ''A4B6''])
     [Assign [mkItem ''C1'' ''A4B5''] S2, Assign [mkItem ''C2'' ''A4B6''] S1,
      Unassign ''C1'' S2, ClearQueue S1]"
    by (simp add: mkItem_def initialState_def handleDrop_def handleRemoveFromPlan_def)
  have h3: "''C1'' \<in> set (map stock_id [mkItem ''C1'' ''A4B5'', mkItem ''C2'' ''A4B6''])"
    by (simp add: mkItem_def)
  show ?thesis
    using h1 h2 h3 planning_exactly_one_place[OF h1 h2 h3, of 3] by blast
qed

text \<open>
  As the claim states it, for any sequence of calls, it fails: assigning the same item to
  stacker 1 twice puts it in that queue twice.
\<close>

theorem planning_double_assign_counterexample:
  "occurrences
     (run [Assign [mkItem ''C1'' ''A4B5''] S1, Assign [mkItem ''C1'' ''A4B5''] S1]
          (initialState [mkItem ''C1'' ''A4B5''])) ''C1'' = 2"
  by (simp add: occurrences_def allItems_def initialState_def handleDrop_def mkItem_def)

text \<open>
  Claim C2, as amended: an item whose identity is not in the pool when Assign is called
  stays out of the pool, and the queues of the other stackers are untouched, but the item
  is appended to the named queue all the same, with the rest of the dragged items.
\<close>

theorem assign_absent_item_appended:
  assumes "i \<in> set items"
    and "stock_id i \<notin> set (map stock_id (stockData st))"
  shows "stock_id i \<notin> set (map stock_id (stockData (handleDrop m (Some items) st))) \<and>
         planningState (handleDrop m (Some items) st) m = planningState st m @ items \<and>
         i \<in> set (planningState (handleDrop m (Some items) st) m) \<and>
         (\<forall>m'. m' \<noteq> m \<longrightarrow> planningState (handleDrop m (Some items) st) m' = planningState st m')"
  using assms unfolding stock_after_drop queue_after_drop by auto

theorem assign_absent_item_appended_witness:
  "mkItem ''C9'' ''A4B5'' \<in> set [mkItem ''C9'' ''A4B5''] \<and>
   stock_id (mkItem ''C9'' ''A4B5'') \<notin> set (map stock_id (stockData (initialState []))) \<and>
   planningState (handleDrop S2 (Some [mkItem ''C9'' ''A4B5'']) (initialState [])) S2
     = [mkItem ''C9'' ''A4B5'']"
proof -
  have h1: "mkItem ''C9'' ''A4B5'' \<in> set [mkItem ''C9'' ''A4B5'']" by simp
  have h2: "stock_id (mkItem ''C9'' ''A4B5'') \<notin> set (map stock_id (stockData (initialState [])))"
    by (simp add: initialState_def)
  show ?thesis
    using h1 h2 assign_absent_item_appended[OF h1 h2, of S2]
    by (simp add: initialState_def)
qed

text \<open>As the claim states it, a no-op, it fails: the queue of stacker 2 changes.\<close>

theorem assign_absent_item_counterexample:
  "stock_id (mkItem ''C9'' ''A4B5'') \<notin> set (map stock_id (stockData (initialState []))) \<and>
   planningState (initialState []) S2 = [] \<and>
   planningState (handleDrop S2 (Some [mkItem ''C9'' ''A4B5'']) (initialState [])) S2
     = [mkItem ''C9'' ''A4B5'']"
  by (simp add: initialState_def handleDrop_def)

section \<open>Properties of the yard grid builder\<close>

declare scanRow.simps [simp del]
declare scanTiers.simps [simp del]

lemma find_app: "find P (xs @ ys) = (case find P xs of None \<Rightarrow> find P ys | Some x \<Rightarrow> Some x)"
  by (induction xs) auto

lemma find_mapped: "find P (map f xs) = map_option f (find (\<lambda>x. P (f x)) xs)"
  by (induction xs) auto

lemma scanRow_find:
  "scanRow grid item t r =
     (case find (\<lambda>r'. grid ! t ! r' = None) [r..<6] of
        None \<Rightarrow> (grid, False)
      | Some r' \<Rightarrow> (setCell grid t r' item, True))"
proof (induction grid item t r rule: scanRow.induct)
  case (1 grid item t r)
  show ?case
  proof (cases "r < 6")
    case False
    then show ?thesis by (subst scanRow.simps) simp
  next
    case True
    then have u: "[r..<6] = r # [r + 1..<6]" by (simp add: upt_conv_Cons)
    show ?thesis
    proof (cases "grid ! t ! r = None")
      case True
      with \<open>r < 6\<close> show ?thesis by (subst scanRow.simps) (simp add: u)
    next
      case False
      with \<open>r < 6\<close> 1 show ?thesis by (subst scanRow.simps) (simp add: u del: not_None_eq)
    qed
  qed
qed

lemma scanTiers_placed: "scanTiers grid item True t = (grid, True)"
  by (subst scanTiers.simps) simp

lemma cellsFrom_Suc: "cellsFrom (Suc k) = map (\<lambda>r. (k, r)) [0..<6] @ cellsFrom k"
  by (simp add: cellsFrom_def)

lemma scanTiers_find:
  "scanTiers grid item False (int k - 1) =
     (case find (\<lambda>(t, r). grid ! t ! r = None) (cellsFrom k) of
        None \<Rightarrow> (grid, False)
      | Some (t, r) \<Rightarrow> (setCell grid t r item, True))"
proof (induction k)
  case 0
  show ?case by (subst scanTiers.simps) (simp add: cellsFrom_def)
next
  case (Suc k)
  have s: "scanTiers grid item False (int (Suc k) - 1) =
             (case scanRow grid item k 0 of
                (grid', placed') \<Rightarrow> scanTiers grid' item placed' (int k - 1))"
    by (subst scanTiers.simps) simp
  show ?case
  proof (cases "find (\<lambda>r'. grid ! k ! r' = None) [0..<6]")
    case None
    then show ?thesis
      unfolding s scanRow_find cellsFrom_Suc find_app find_mapped
      using Suc by simp
  next
    case (Some r')
    then show ?thesis
      unfolding s scanRow_find cellsFrom_Suc find_app find_mapped
      by (simp add: scanTiers_placed)
  qed
qed

lemma scanOrder_cellsFrom: "scanOrder = cellsFrom 6"
  by (simp add: scanOrder_def cellsFrom_def)

lemma collision_branch:
  "fst (scanTiers grid item False 5) =
     (case firstEmpty grid of None \<Rightarrow> grid | Some (t, r) \<Rightarrow> setCell grid t r item)"
proof -
  have "scanTiers grid item False 5 = scanTiers grid item False (int 6 - 1)" by simp
  then show ?thesis
    unfolding firstEmpty_def scanOrder_cellsFrom
    by (simp only: scanTiers_find split: option.split prod.split) auto
qed

text \<open>The collision branch as a whole: the first empty cell of the scan order, if any.\<close>

lemma collision_branch_place:
  assumes "grid ! nat (6 - tier (parsePosition (local item))) ! nat (row (parsePosition (local item))) \<noteq> None"
  shows "placeItem grid item =
     (case firstEmpty grid of None \<Rightarrow> grid | Some (t, r) \<Rightarrow> setCell grid t r item)"
proof -
  have "placeItem grid item = fst (scanTiers grid item False 5)"
    using assms parsePosition_in_range[of "local item"]
    by (simp add: placeItem_def Let_def del: not_None_eq)
  then show ?thesis by (simp add: collision_branch)
qed

text \<open>
  Claim C3, as amended: when the target cell \<open>grid[6 - tier][row]\<close> of an item is occupied,
  the item goes to the first empty cell found by scanning the visual tiers from index 5
  down to index 0, that is from tier 1, the lowest, up to tier 6, and each of them from
  the leftmost row to the right; when no cell is empty the grid is left as it is.
\<close>

theorem collision_first_fit_bottom_up:
  assumes "grid ! nat (6 - tier (parsePosition (local item))) ! nat (row (parsePosition (local item))) \<noteq> None"
  shows "placeItem grid item =
     (case firstEmpty grid of None \<Rightarrow> grid | Some (t, r) \<Rightarrow> setCell grid t r item)"
  using assms
  by (rule collision_branch_place)

theorem collision_first_fit_bottom_up_witness:
  "buildGrid [mkItem ''C1'' ''Q1A1'']
      ! nat (6 - tier (parsePosition (local (mkItem ''C2'' ''Q1A1''))))
      ! nat (row (parsePosition (local (mkItem ''C2'' ''Q1A1'')))) \<noteq> None \<and>
   placeItem (buildGrid [mkItem ''C1'' ''Q1A1'']) (mkItem ''C2'' ''Q1A1'')
     = setCell (buildGrid [mkItem ''C1'' ''Q1A1'']) 5 1 (mkItem ''C2'' ''Q1A1'')"
proof -
  have h: "buildGrid [mkItem ''C1'' ''Q1A1'']
      ! nat (6 - tier (parsePosition (local (mkItem ''C2'' ''Q1A1''))))
      ! nat (row (parsePosition (local (mkItem ''C2'' ''Q1A1'')))) \<noteq> None"
    by code_simp
  have fe: "firstEmpty (buildGrid [mkItem ''C1'' ''Q1A1'']) = Some (5, 1)"
    by code_simp
  show ?thesis
    using h collision_first_fit_bottom_up[OF h] fe by simp
qed

text \<open>
  As the claim states it, from the highest tier downward, it fails: with one item at row A,
  tier 1, a second item decoding to the same cell goes to row B of tier 1 (visual tier 5),
  while the first empty cell from tier 6 downward is row A of tier 6, which stays empty.
\<close>

theorem collision_scan_top_down_counterexample:
  "buildGrid [mkItem ''C1'' ''Q1A1'']
      ! nat (6 - tier (parsePosition (local (mkItem ''C2'' ''Q1A1''))))
      ! nat (row (parsePosition (local (mkItem ''C2'' ''Q1A1'')))) = Some (mkItem ''C1'' ''Q1A1'') \<and>
   spec_firstEmpty (buildGrid [mkItem ''C1'' ''Q1A1'']) = Some (0, 0) \<and>
   placeItem (buildGrid [mkItem ''C1'' ''Q1A1'']) (mkItem ''C2'' ''Q1A1'') ! 0 ! 0 = None \<and>
   placeItem (buildGrid [mkItem ''C1'' ''Q1A1'']) (mkItem ''C2'' ''Q1A1'') ! 5 ! 1
     = Some (mkItem ''C2'' ''Q1A1'')"
  by code_simp



lemma wf_emptyGrid: "wfGrid emptyGrid"
  by (simp add: wfGrid_def emptyGrid_def)

lemma wf_setCell:
  assumes "wfGrid grid"
  shows "wfGrid (setCell grid t r item)"
proof (cases "t < length grid")
  case True
  then have "length (grid ! t) = 6" using assms nth_mem[of t grid] by (simp add: wfGrid_def)
  then show ?thesis
    using assms unfolding wfGrid_def setCell_def
    by (auto dest!: set_update_subset_insert[THEN subsetD])
next
  case False
  then have "grid[t := (grid ! t)[r := Some item]] = grid" by (simp add: list_update_beyond)
  then show ?thesis using assms by (simp add: setCell_def)
qed

lemma setCell_nth:
  assumes "wfGrid grid" "t < 6" "r < 6" "t' < 6" "r' < 6"
  shows "setCell grid t r item ! t' ! r' = (if t' = t \<and> r' = r then Some item else grid ! t' ! r')"
proof -
  have "length (grid ! t) = 6" using assms(1,2) nth_mem[of t grid] by (simp add: wfGrid_def)
  then show ?thesis
    using assms by (simp add: setCell_def wfGrid_def nth_list_update)
qed

lemma hasFree_iff: "hasFree grid = (\<exists>t < 6. \<exists>r < 6. grid ! t ! r = None)"
  unfolding hasFree_def list_ex_iff by (simp add: Bex_def)

lemma set_scanOrder: "set scanOrder = {0..<6} \<times> {0..<6}"
  by (auto simp add: scanOrder_def)

lemma find_SomeD: "find P xs = Some x \<Longrightarrow> x \<in> set xs \<and> P x"
  by (induction xs) (auto split: if_splits)

lemma firstEmpty_Some:
  assumes "firstEmpty grid = Some (t, r)"
  shows "t < 6 \<and> r < 6 \<and> grid ! t ! r = None"
proof -
  have "(t, r) \<in> set scanOrder \<and> grid ! t ! r = None"
    using find_SomeD[OF assms[unfolded firstEmpty_def]] by simp
  then show ?thesis by (simp add: set_scanOrder)
qed

lemma firstEmpty_None: "firstEmpty grid = None \<Longrightarrow> \<not> hasFree grid"
  unfolding firstEmpty_def find_None_iff hasFree_iff set_scanOrder by auto

lemma placeItem_cases:
  "(placeItem grid item = grid \<and> \<not> hasFree grid) \<or>
   (\<exists>t r. t < 6 \<and> r < 6 \<and> grid ! t ! r = None \<and> placeItem grid item = setCell grid t r item)"
proof (cases "grid ! nat (6 - tier (parsePosition (local item))) ! nat (row (parsePosition (local item))) = None")
  case True
  have "placeItem grid item =
          setCell grid (nat (6 - tier (parsePosition (local item)))) (nat (row (parsePosition (local item)))) item"
    using True parsePosition_in_range[of "local item"] by (simp add: placeItem_def Let_def)
  moreover have "nat (6 - tier (parsePosition (local item))) < 6" "nat (row (parsePosition (local item))) < 6"
    using parsePosition_in_range[of "local item"] by auto
  ultimately show ?thesis using True by blast
next
  case False
  note c = collision_branch_place[OF False]
  show ?thesis
  proof (cases "firstEmpty grid")
    case None
    then show ?thesis using c firstEmpty_None by simp
  next
    case (Some p)
    obtain t r where p: "p = (t, r)" by (cases p)
    then show ?thesis using c Some firstEmpty_Some[of grid t r] by auto
  qed
qed

lemma wf_placeItem: "wfGrid grid \<Longrightarrow> wfGrid (placeItem grid item)"
  using placeItem_cases[of grid item] by (auto simp add: wf_setCell)

lemma kept_placeItem:
  assumes "wfGrid grid" "t < 6" "r < 6" "grid ! t ! r = Some x"
  shows "placeItem grid item ! t ! r = Some x"
  using placeItem_cases[of grid item] assms by (auto simp add: setCell_nth)

lemma free_placeItem:
  assumes "wfGrid grid" "hasFree (placeItem grid item)"
  shows "hasFree grid"
proof -
  from placeItem_cases[of grid item] show ?thesis
  proof
    assume "placeItem grid item = grid \<and> \<not> hasFree grid"
    then show ?thesis using assms(2) by simp
  next
    assume "\<exists>t r. t < 6 \<and> r < 6 \<and> grid ! t ! r = None \<and> placeItem grid item = setCell grid t r item"
    then obtain t r where "t < 6" "r < 6" "grid ! t ! r = None" by blast
    then show ?thesis unfolding hasFree_iff by blast
  qed
qed

lemma placed_placeItem:
  assumes "wfGrid grid" "hasFree grid"
  shows "\<exists>t r. t < 6 \<and> r < 6 \<and> grid ! t ! r = None \<and> placeItem grid item ! t ! r = Some item"
proof -
  obtain t r where c: "t < 6" "r < 6" "grid ! t ! r = None" "placeItem grid item = setCell grid t r item"
    using placeItem_cases[of grid item] assms(2) by blast
  have "placeItem grid item ! t ! r = Some item"
    unfolding c(4) using setCell_nth[OF assms(1) c(1,2) c(1,2)] by simp
  then show ?thesis using c by blast
qed

lemma wf_foldl: "wfGrid grid \<Longrightarrow> wfGrid (foldl placeItem grid items)"
  by (induction items arbitrary: grid) (simp_all add: wf_placeItem)

lemma kept_foldl:
  assumes "wfGrid grid" "t < 6" "r < 6" "grid ! t ! r = Some x"
  shows "foldl placeItem grid items ! t ! r = Some x"
  using assms by (induction items arbitrary: grid) (simp_all add: wf_placeItem kept_placeItem)

lemma free_foldl:
  assumes "wfGrid grid" "hasFree (foldl placeItem grid items)"
  shows "hasFree grid"
  using assms
proof (induction items arbitrary: grid)
  case Nil then show ?case by simp
next
  case (Cons a items)
  then have "hasFree (placeItem grid a)" by (simp add: wf_placeItem)
  then show ?case using Cons.prems(1) free_placeItem by blast
qed

lemma both_placed:
  assumes "hasFree (buildGrid (xs @ a # ys))"
  shows "\<exists>t1 r1 t2 r2. t1 < 6 \<and> r1 < 6 \<and> t2 < 6 \<and> r2 < 6 \<and> (t1, r1) \<noteq> (t2, r2) \<and>
           buildGrid (xs @ a # ys @ b # zs) ! t1 ! r1 = Some a \<and>
           buildGrid (xs @ a # ys @ b # zs) ! t2 ! r2 = Some b"
proof -
  define g0 where "g0 = foldl placeItem emptyGrid xs"
  define g1 where "g1 = placeItem g0 a"
  define g2 where "g2 = foldl placeItem g1 ys"
  define g3 where "g3 = placeItem g2 b"
  have w0: "wfGrid g0" unfolding g0_def by (simp add: wf_foldl wf_emptyGrid)
  have w1: "wfGrid g1" unfolding g1_def by (simp add: wf_placeItem w0)
  have w2: "wfGrid g2" unfolding g2_def by (simp add: wf_foldl w1)
  have w3: "wfGrid g3" unfolding g3_def by (simp add: wf_placeItem w2)
  have f2: "hasFree g2" using assms by (simp add: buildGrid_def g2_def g1_def g0_def)
  have f1: "hasFree g1" using f2 w1 free_foldl unfolding g2_def by blast
  have f0: "hasFree g0" using f1 w0 free_placeItem unfolding g1_def by blast
  obtain t1 r1 where a: "t1 < 6" "r1 < 6" "g1 ! t1 ! r1 = Some a"
    using placed_placeItem[OF w0 f0, of a] unfolding g1_def by blast
  have a2: "g2 ! t1 ! r1 = Some a" unfolding g2_def using kept_foldl[OF w1 a] .
  obtain t2 r2 where b: "t2 < 6" "r2 < 6" "g2 ! t2 ! r2 = None" "g3 ! t2 ! r2 = Some b"
    using placed_placeItem[OF w2 f2, of b] unfolding g3_def by blast
  have ne: "(t1, r1) \<noteq> (t2, r2)" using a2 b(3) by auto
  have a3: "g3 ! t1 ! r1 = Some a" unfolding g3_def using kept_placeItem[OF w2 a(1,2) a2] .
  have fin: "buildGrid (xs @ a # ys @ b # zs) = foldl placeItem g3 zs"
    by (simp add: buildGrid_def g3_def g2_def g1_def g0_def)
  have "foldl placeItem g3 zs ! t1 ! r1 = Some a" using kept_foldl[OF w3 a(1,2) a3] .
  moreover have "foldl placeItem g3 zs ! t2 ! r2 = Some b" using kept_foldl[OF w3 b(1,2) b(4)] .
  ultimately show ?thesis unfolding fin using a(1,2) b(1,2) ne by blast
qed

lemma split_two:
  assumes "i < j" "j < length xs"
  shows "xs = take i xs @ xs ! i # take (j - i - 1) (drop (Suc i) xs) @ xs ! j # drop (Suc j) xs
         \<and> take j xs = take i xs @ xs ! i # take (j - i - 1) (drop (Suc i) xs)"
proof -
  have 1: "xs = take j xs @ xs ! j # drop (Suc j) xs" using assms by (simp add: id_take_nth_drop)
  have 2: "take j xs = take i (take j xs) @ (take j xs) ! i # drop (Suc i) (take j xs)"
    using assms by (intro id_take_nth_drop) simp
  have 3: "take i (take j xs) = take i xs" using assms by (simp add: min_def)
  have 4: "take j xs ! i = xs ! i" using assms by simp
  have 5: "drop (Suc i) (take j xs) = take (j - i - 1) (drop (Suc i) xs)"
    using assms by (simp add: drop_take)
  have t: "take j xs = take i xs @ xs ! i # take (j - i - 1) (drop (Suc i) xs)"
    using 2 unfolding 3 4 5 .
  show ?thesis using 1 t by simp
qed

text \<open>
  Claim C7: when two items of a bay decode to the same coordinate and the grid still has a
  free cell when the second of them is reached, both are in the finished grid, in two
  different cells.
\<close>

theorem colliding_items_both_placed:
  assumes "i < j" "j < length bayItems"
    and "parsePosition (local (bayItems ! i)) = parsePosition (local (bayItems ! j))"
    and "hasFree (buildGrid (take j bayItems))"
  shows "\<exists>t1 r1 t2 r2. t1 < 6 \<and> r1 < 6 \<and> t2 < 6 \<and> r2 < 6 \<and> (t1, r1) \<noteq> (t2, r2) \<and>
           buildGrid bayItems ! t1 ! r1 = Some (bayItems ! i) \<and>
           buildGrid bayItems ! t2 ! r2 = Some (bayItems ! j)"
proof -
  note s = split_two[OF assms(1,2)]
  have "hasFree (buildGrid (take i bayItems @ bayItems ! i # take (j - i - 1) (drop (Suc i) bayItems)))"
    using assms(4) s by simp
  from both_placed[OF this, of "bayItems ! j" "drop (Suc j) bayItems"] s
  show ?thesis by simp
qed


theorem colliding_items_both_placed_witness:
  "(0::nat) < 1 \<and> 1 < length [mkItem ''C1'' ''Q1A1'', mkItem ''C2'' ''Q1A1''] \<and>
   parsePosition (local ([mkItem ''C1'' ''Q1A1'', mkItem ''C2'' ''Q1A1''] ! 0))
     = parsePosition (local ([mkItem ''C1'' ''Q1A1'', mkItem ''C2'' ''Q1A1''] ! 1)) \<and>
   hasFree (buildGrid (take 1 [mkItem ''C1'' ''Q1A1'', mkItem ''C2'' ''Q1A1''])) \<and>
   (\<exists>t1 r1 t2 r2. t1 < 6 \<and> r1 < 6 \<and> t2 < 6 \<and> r2 < 6 \<and> (t1, r1) \<noteq> (t2, r2) \<and>
      buildGrid [mkItem ''C1'' ''Q1A1'', mkItem ''C2'' ''Q1A1''] ! t1 ! r1 = Some (mkItem ''C1'' ''Q1A1'') \<and>
      buildGrid [mkItem ''C1'' ''Q1A1'', mkItem ''C2'' ''Q1A1''] ! t2 ! r2 = Some (mkItem ''C2'' ''Q1A1''))"
proof -
  have h1: "(0::nat) < 1" by simp
  have h2: "1 < length [mkItem ''C1'' ''Q1A1'', mkItem ''C2'' ''Q1A1'']" by simp
  have h3: "parsePosition (local ([mkItem ''C1'' ''Q1A1'', mkItem ''C2'' ''Q1A1''] ! 0))
     = parsePosition (local ([mkItem ''C1'' ''Q1A1'', mkItem ''C2'' ''Q1A1''] ! 1))"
    by (simp add: mkItem_def)
  have h4: "hasFree (buildGrid (take 1 [mkItem ''C1'' ''Q1A1'', mkItem ''C2'' ''Q1A1'']))"
    by code_simp
  show ?thesis
    using h1 h2 h3 h4 colliding_items_both_placed[OF h1 h2 h3 h4] by simp
qed
section \<open>Properties of the estimated time\<close>



lemma pow2_less: "k < l \<Longrightarrow> (2::rat) powi k < 2 powi l"
  by (rule power_int_strict_increasing) simp_all






































text \<open>The estimate at 11 moves an hour and index 11: the product \<open>11 * (60 / 11)\<close> is a hair
  under 60 in doubles, and the minute is 59, not 60.\<close>

lemma eta_rate_11_index_11:
  "etaMinutes \<lparr>start = ''08:00'', mph = 11\<rparr> 11 = Some 539 \<and>
   getEstimatedTime \<lparr>start = ''08:00'', mph = 11\<rparr> 11 = Some (8, 59)"
  by code_simp





section \<open>Properties of the bay order\<close>

lemma set_insertBy: "set (insertBy cmp x ys) = insert x (set ys)"
  by (induction ys) auto

lemma mset_insertBy: "mset (insertBy cmp x ys) = add_mset x (mset ys)"
  by (induction ys) auto

lemma mset_sortBy: "mset (sortBy cmp xs) = mset xs"
  by (induction xs) (simp_all add: sortBy_def mset_insertBy)

lemma set_sortBy: "set (sortBy cmp xs) = set xs"
  using mset_sortBy[of cmp xs] by (metis set_mset_mset)

lemma sorted_insertBy:
  assumes tr: "\<And>x y z. le x y \<Longrightarrow> le y z \<Longrightarrow> le x z"
    and tot: "\<And>x y. le x y \<or> le y x"
    and c: "\<And>y. y \<in> set ys \<Longrightarrow> (cmp a y \<le> 0) = le a y"
    and s: "sorted_wrt le ys"
  shows "sorted_wrt le (insertBy cmp a ys)"
  using c s
proof (induction ys)
  case Nil then show ?case by simp
next
  case (Cons y ys)
  show ?case
  proof (cases "cmp a y \<le> 0")
    case True
    then have "le a y" using Cons.prems(1) by simp
    then have "\<forall>z \<in> set ys. le a z" using Cons.prems(2) tr by auto
    then show ?thesis using True \<open>le a y\<close> Cons.prems(2) by simp
  next
    case False
    then have "\<not> le a y" using Cons.prems(1) by simp
    then have "le y a" using tot by blast
    moreover have "sorted_wrt le (insertBy cmp a ys)" using Cons by simp
    ultimately show ?thesis using False Cons.prems(2) by (simp add: set_insertBy)
  qed
qed

lemma sorted_sortBy:
  assumes tr: "\<And>x y z. le x y \<Longrightarrow> le y z \<Longrightarrow> le x z"
    and tot: "\<And>x y. le x y \<or> le y x"
    and c: "\<And>x y. x \<in> set xs \<Longrightarrow> y \<in> set xs \<Longrightarrow> (cmp x y \<le> 0) = le x y"
  shows "sorted_wrt le (sortBy cmp xs)"
  using c
proof (induction xs)
  case Nil then show ?case by (simp add: sortBy_def)
next
  case (Cons a xs)
  have s: "sorted_wrt le (sortBy cmp xs)" using Cons by simp
  have "sorted_wrt le (insertBy cmp a (sortBy cmp xs))"
    by (rule sorted_insertBy[OF tr tot _ s]) (simp_all add: set_sortBy Cons.prems)
  then show ?case by (simp add: sortBy_def)
qed

lemma charCode_inj: "charCode x = charCode y \<Longrightarrow> x = y"
  by (simp add: charCode_def)

lemma strLess_irrefl: "\<not> strLess a a"
  by (induction a) auto

lemma strLess_trans: "strLess a b \<Longrightarrow> strLess b c \<Longrightarrow> strLess a c"
proof (induction a b arbitrary: c rule: strLess.induct)
  case 1
  then show ?case by simp
next
  case (2 y ys)
  then show ?case by (cases c) simp_all
next
  case (3 x xs)
  then show ?case by simp
next
  case (4 x xs y ys)
  show ?case
  proof (cases c)
    case Nil
    then show ?thesis using 4 by simp
  next
    case (Cons z zs)
    then show ?thesis using 4 by auto
  qed
qed

lemma strLess_total: "strLess a b \<or> a = b \<or> strLess b a"
proof (induction a b rule: strLess.induct)
  case (4 x xs y ys)
  then show ?case using charCode_inj[of x y] by (auto simp add: not_less_iff_gr_or_eq)
qed simp_all

lemma strLess_asym: "strLess a b \<Longrightarrow> \<not> strLess b a"
  using strLess_trans[of a b a] strLess_irrefl[of a] by blast

lemma strLe_trans:
  assumes "strLe a b" "strLe b c"
  shows "strLe a c"
proof -
  have "\<not> strLess c a"
  proof
    assume ca: "strLess c a"
    from strLess_total[of a b] show False
    proof (elim disjE)
      assume "strLess a b"
      then have "strLess c b" using ca strLess_trans by blast
      then show False using assms(2) by (simp add: strLe_def)
    next
      assume "a = b"
      then show False using ca assms(2) by (simp add: strLe_def)
    next
      assume "strLess b a"
      then show False using assms(1) by (simp add: strLe_def)
    qed
  qed
  then show ?thesis by (simp add: strLe_def)
qed

lemma strLe_total: "strLe a b \<or> strLe b a"
  using strLess_asym[of a b] by (auto simp add: strLe_def)

lemma defaultCompare_le: "(defaultCompare a b \<le> 0) = strLe a b"
  using strLess_asym[of a b] by (auto simp add: strLe_def defaultCompare_def)

lemma compareBays_num:
  assumes "bayNumber a \<noteq> None" "bayNumber b \<noteq> None"
  shows "(compareBays lc a b \<le> 0) = (the (bayNumber a) \<le> the (bayNumber b))"
  using assms by (auto simp add: compareBays_def)


lemma sorted_insertBy_on:
  assumes tr: "\<And>x y z. x \<in> S \<Longrightarrow> y \<in> S \<Longrightarrow> z \<in> S \<Longrightarrow> le x y \<Longrightarrow> le y z \<Longrightarrow> le x z"
    and tot: "\<And>x y. x \<in> S \<Longrightarrow> y \<in> S \<Longrightarrow> le x y \<or> le y x"
    and c: "\<And>y. y \<in> set ys \<Longrightarrow> (cmp a y \<le> 0) = le a y"
    and m: "a \<in> S" "set ys \<subseteq> S"
    and s: "sorted_wrt le ys"
  shows "sorted_wrt le (insertBy cmp a ys)"
  using c m(2) s
proof (induction ys)
  case Nil then show ?case by simp
next
  case (Cons y ys)
  have y: "y \<in> S" and ys: "set ys \<subseteq> S" using Cons.prems(2) by simp_all
  show ?case
  proof (cases "cmp a y \<le> 0")
    case True
    then have ay: "le a y" using Cons.prems(1) by simp
    have "\<forall>z \<in> set ys. le a z"
    proof
      fix z assume z: "z \<in> set ys"
      then have "le y z" using Cons.prems(3) by simp
      then show "le a z" using tr[OF m(1) y _ ay] z ys by blast
    qed
    then show ?thesis using True ay Cons.prems(3) by simp
  next
    case False
    then have "\<not> le a y" using Cons.prems(1) by simp
    then have "le y a" using tot[OF m(1) y] by blast
    moreover have "sorted_wrt le (insertBy cmp a ys)"
      using Cons.IH Cons.prems ys by simp
    ultimately show ?thesis using False Cons.prems(3) by (simp add: set_insertBy)
  qed
qed

lemma sorted_sortBy_on:
  assumes tr: "\<And>x y z. x \<in> S \<Longrightarrow> y \<in> S \<Longrightarrow> z \<in> S \<Longrightarrow> le x y \<Longrightarrow> le y z \<Longrightarrow> le x z"
    and tot: "\<And>x y. x \<in> S \<Longrightarrow> y \<in> S \<Longrightarrow> le x y \<or> le y x"
    and c: "\<And>x y. x \<in> S \<Longrightarrow> y \<in> S \<Longrightarrow> (cmp x y \<le> 0) = le x y"
    and m: "set xs \<subseteq> S"
  shows "sorted_wrt le (sortBy cmp xs)"
  using m
proof (induction xs)
  case Nil then show ?case by (simp add: sortBy_def)
next
  case (Cons a xs)
  have a: "a \<in> S" and xs: "set xs \<subseteq> S" using Cons.prems by simp_all
  have s: "sorted_wrt le (sortBy cmp xs)" using Cons.IH xs by simp
  have "sorted_wrt le (insertBy cmp a (sortBy cmp xs))"
  proof (rule sorted_insertBy_on[where S = S, OF tr tot _ a _ s])
    show "set (sortBy cmp xs) \<subseteq> S" using xs by (simp add: set_sortBy)
    show "\<And>y. y \<in> set (sortBy cmp xs) \<Longrightarrow> (cmp a y \<le> 0) = le a y"
      using c[OF a] xs by (auto simp add: set_sortBy)
  qed
  then show ?case by (simp add: sortBy_def)
qed

lemma if_True_imp: "(if P then Q else True) = (P \<longrightarrow> Q)"
  by simp

lemma consistentOn_iff:
  "consistentOn cmp xs =
     ((\<forall>a \<in> set xs. cmp a a = 0) \<and>
      (\<forall>a \<in> set xs. \<forall>b \<in> set xs. cmp a b = 0 \<longrightarrow> cmp b a = 0) \<and>
      (\<forall>a \<in> set xs. \<forall>b \<in> set xs. \<forall>c \<in> set xs. cmp a b = 0 \<longrightarrow> cmp b c = 0 \<longrightarrow> cmp a c = 0) \<and>
      (\<forall>a \<in> set xs. \<forall>b \<in> set xs. \<forall>c \<in> set xs. cmp a b < 0 \<longrightarrow> cmp b c < 0 \<longrightarrow> cmp a c < 0) \<and>
      (\<forall>a \<in> set xs. \<forall>b \<in> set xs. \<forall>c \<in> set xs. cmp a b > 0 \<longrightarrow> cmp b c > 0 \<longrightarrow> cmp a c > 0))"
  (is "?L = ?R")
proof
  assume l: ?L
  then have h: "\<And>a b c. a \<in> set xs \<Longrightarrow> b \<in> set xs \<Longrightarrow> c \<in> set xs \<Longrightarrow>
      cmp a a = 0 \<and> (cmp a b = 0 \<longrightarrow> cmp b a = 0) \<and>
      (cmp a b = 0 \<and> cmp b c = 0 \<longrightarrow> cmp a c = 0) \<and>
      (cmp a b < 0 \<and> cmp b c < 0 \<longrightarrow> cmp a c < 0) \<and>
      (cmp a b > 0 \<and> cmp b c > 0 \<longrightarrow> cmp a c > 0)"
    unfolding consistentOn_def list_all_iff if_True_imp by blast
  show ?R
    apply (intro conjI ballI impI)
    using h apply blast
    using h apply blast
    using h apply blast
    using h apply blast
    using h apply blast
    done
next
  assume r: ?R
  show ?L
    unfolding consistentOn_def list_all_iff if_True_imp
    apply (intro conjI ballI impI)
    using r apply blast
    using r apply blast
    using r apply blast
    using r apply blast
    using r apply blast
    done
qed


lemma consistentOn_cong:
  assumes "\<And>a b. a \<in> set xs \<Longrightarrow> b \<in> set xs \<Longrightarrow> cmp a b = cmp' a b"
  shows "consistentOn cmp xs = consistentOn cmp' xs"
  unfolding consistentOn_def list_all_iff using assms by simp

lemma consistent_total:
  assumes c: "consistentOn cmp xs" and m: "a \<in> set xs" "b \<in> set xs"
  shows "cmp a b \<le> 0 \<or> cmp b a \<le> 0"
proof (rule ccontr)
  assume "\<not> (cmp a b \<le> 0 \<or> cmp b a \<le> 0)"
  then have "cmp a b > 0" "cmp b a > 0" by simp_all
  then have "cmp a a > 0" using c m unfolding consistentOn_iff by blast
  moreover have "cmp a a = 0" using c m unfolding consistentOn_iff by blast
  ultimately show False by simp
qed

lemma consistent_flip:
  assumes c: "consistentOn cmp xs" and m: "a \<in> set xs" "b \<in> set xs" and l: "cmp a b < 0"
  shows "cmp b a > 0"
proof (rule ccontr)
  assume "\<not> cmp b a > 0"
  then consider "cmp b a < 0" | "cmp b a = 0" by linarith
  then show False
  proof cases
    case 1
    then have "cmp a a < 0" using l c m unfolding consistentOn_iff by blast
    moreover have "cmp a a = 0" using c m unfolding consistentOn_iff by blast
    ultimately show False by simp
  next
    case 2
    then have "cmp a b = 0" using c m unfolding consistentOn_iff by blast
    then show False using l by simp
  qed
qed

lemma consistent_flip':
  assumes c: "consistentOn cmp xs" and m: "a \<in> set xs" "b \<in> set xs" and l: "cmp a b > 0"
  shows "cmp b a < 0"
proof (rule ccontr)
  assume "\<not> cmp b a < 0"
  then consider "cmp b a > 0" | "cmp b a = 0" by linarith
  then show False
  proof cases
    case 1
    then have "cmp a a > 0" using l c m unfolding consistentOn_iff by blast
    moreover have "cmp a a = 0" using c m unfolding consistentOn_iff by blast
    ultimately show False by simp
  next
    case 2
    then have "cmp a b = 0" using c m unfolding consistentOn_iff by blast
    then show False using l by simp
  qed
qed

lemma consistent_trans:
  assumes c: "consistentOn cmp xs" and m: "x \<in> set xs" "y \<in> set xs" "z \<in> set xs"
    and xy: "cmp x y \<le> 0" and yz: "cmp y z \<le> 0"
  shows "cmp x z \<le> 0"
proof (rule ccontr)
  assume "\<not> cmp x z \<le> 0"
  then have xz: "cmp x z > 0" by simp
  then have zx: "cmp z x < 0" using consistent_flip'[OF c m(1) m(3)] by simp
  consider "cmp x y < 0" | "cmp x y = 0" using xy by linarith
  then show False
  proof cases
    case 1
    then have zy: "cmp z y < 0" using zx c m unfolding consistentOn_iff by blast
    then have "cmp y z > 0" using consistent_flip[OF c m(3) m(2)] by simp
    then show False using yz by simp
  next
    case 2
    consider "cmp y z < 0" | "cmp y z = 0" using yz by linarith
    then show False
    proof cases
      case 1
      then have "cmp y x < 0" using zx c m unfolding consistentOn_iff by blast
      moreover have "cmp y x = 0" using 2 c m unfolding consistentOn_iff by blast
      ultimately show False by simp
    next
      case 3: 2
      have "cmp x z = 0" using 2 3 c m unfolding consistentOn_iff by blast
      then show False using xz by simp
    qed
  qed
qed

lemma consistent_sorted:
  assumes c: "consistentOn cmp xs"
  shows "sorted_wrt (\<lambda>a b. cmp a b \<le> 0) (sortBy cmp xs)"
proof (rule sorted_sortBy_on[where S = "set xs"])
  show "\<And>x y z. x \<in> set xs \<Longrightarrow> y \<in> set xs \<Longrightarrow> z \<in> set xs \<Longrightarrow>
          cmp x y \<le> 0 \<Longrightarrow> cmp y z \<le> 0 \<Longrightarrow> cmp x z \<le> 0"
    using consistent_trans[OF c] by blast
  show "\<And>x y. x \<in> set xs \<Longrightarrow> y \<in> set xs \<Longrightarrow> cmp x y \<le> 0 \<or> cmp y x \<le> 0"
    using consistent_total[OF c] by blast
qed simp_all

lemma sortWith_consistent:
  assumes "consistentOn cmp xs"
  shows "\<exists>ys. sortWith cmp xs = Some ys \<and> mset ys = mset xs \<and>
              sorted_wrt (\<lambda>a b. cmp a b \<le> 0) ys"
  using assms consistent_sorted[OF assms] by (simp add: sortWith_def mset_sortBy)

lemma compareBays_numbers:
  assumes "bayNumber a \<noteq> None" "bayNumber b \<noteq> None"
  shows "compareBays lc a b = the (bayNumber a) - the (bayNumber b)"
  using assms by (auto simp add: compareBays_def)

lemma compareBays_no_number:
  assumes "bayNumber a = None"
  shows "compareBays lc a b = lc a b"
  using assms by (simp add: compareBays_def)

lemma numbers_consistent:
  assumes "\<forall>b \<in> set bayKeys. bayNumber b \<noteq> None"
  shows "consistentOn (compareBays lc) bayKeys"
proof -
  have "consistentOn (compareBays lc) bayKeys =
        consistentOn (\<lambda>a b. the (bayNumber a) - the (bayNumber b)) bayKeys"
    by (rule consistentOn_cong) (use assms compareBays_numbers in blast)
  moreover have "consistentOn (\<lambda>a b. the (bayNumber a) - the (bayNumber b)) bayKeys"
    unfolding consistentOn_iff by auto
  ultimately show ?thesis by simp
qed

lemma yard_map_numbers:
  assumes "\<forall>b \<in> set bayKeys. bayNumber b \<noteq> None"
  shows "\<exists>ys. sortedBays lc bayKeys = Some ys \<and> mset ys = mset bayKeys \<and>
              sorted (map (\<lambda>b. the (bayNumber b)) ys)"
proof -
  obtain ys where ys: "sortWith (compareBays lc) bayKeys = Some ys" "mset ys = mset bayKeys"
      "sorted_wrt (\<lambda>a b. compareBays lc a b \<le> 0) ys"
    using sortWith_consistent[OF numbers_consistent[OF assms]] by blast
  have s: "set ys = set bayKeys" using ys(2) by (rule mset_eq_setD)
  have "sorted_wrt (\<lambda>a b. the (bayNumber a) \<le> the (bayNumber b)) ys"
  proof (rule sorted_wrt_mono_rel[OF _ ys(3)])
    fix a b assume "a \<in> set ys" "b \<in> set ys" "compareBays lc a b \<le> 0"
    then show "the (bayNumber a) \<le> the (bayNumber b)"
      using assms s compareBays_numbers[of a b lc] by simp
  qed
  then have "sorted (map (\<lambda>b. the (bayNumber b)) ys)" by (simp add: sorted_map)
  then show ?thesis using ys by (simp add: sortedBays_def)
qed

lemma yard_map_no_numbers:
  assumes n: "\<forall>b \<in> set bayKeys. bayNumber b = None" and c: "consistentOn lc bayKeys"
  shows "\<exists>ys. sortedBays lc bayKeys = Some ys \<and> mset ys = mset bayKeys \<and>
              sorted_wrt (\<lambda>a b. lc a b \<le> 0) ys"
proof -
  have "consistentOn (compareBays lc) bayKeys = consistentOn lc bayKeys"
    by (rule consistentOn_cong) (use n compareBays_no_number in blast)
  then have "consistentOn (compareBays lc) bayKeys" using c by simp
  then obtain ys where ys: "sortWith (compareBays lc) bayKeys = Some ys" "mset ys = mset bayKeys"
      "sorted_wrt (\<lambda>a b. compareBays lc a b \<le> 0) ys"
    using sortWith_consistent by blast
  have s: "set ys = set bayKeys" using ys(2) by (rule mset_eq_setD)
  have "sorted_wrt (\<lambda>a b. lc a b \<le> 0) ys"
  proof (rule sorted_wrt_mono_rel[OF _ ys(3)])
    fix a b assume "a \<in> set ys" "b \<in> set ys" "compareBays lc a b \<le> 0"
    then show "lc a b \<le> 0"
      using n s compareBays_no_number[of a lc b] by simp
  qed
  then show ?thesis using ys by (simp add: sortedBays_def)
qed

lemma yard_map_consistent:
  assumes "consistentOn (compareBays lc) bayKeys"
  shows "\<exists>ys. sortedBays lc bayKeys = Some ys \<and> mset ys = mset bayKeys \<and>
              sorted_wrt (\<lambda>a b. compareBays lc a b \<le> 0) ys"
  using sortWith_consistent[OF assms] by (simp add: sortedBays_def)

lemma planning_view_order:
  "sorted_wrt strLe (quadraBayOrder bayKeys) \<and> mset (quadraBayOrder bayKeys) = mset bayKeys"
proof -
  have "sorted_wrt strLe (sortBy defaultCompare bayKeys)"
  proof (rule sorted_sortBy)
    show "\<And>x y z. strLe x y \<Longrightarrow> strLe y z \<Longrightarrow> strLe x z" by (rule strLe_trans)
    show "\<And>x y. strLe x y \<or> strLe y x" by (rule strLe_total)
    show "\<And>x y. (defaultCompare x y \<le> 0) = strLe x y" by (rule defaultCompare_le)
  qed
  then show ?thesis by (simp add: quadraBayOrder_def mset_sortBy)
qed

text \<open>
  Claim C9, as amended. In the yard map, when every bay label of a quadra contains a
  number (of at most fifteen digits, so that it is exact) the bays are listed in ascending
  order of that number, whatever the collation; when no label contains a number they are
  listed in the order of \<open>localeCompare\<close>; when only some do, they are listed in the
  order of the yard map's comparator, provided it is consistent for the labels. In the
  planning view's quadra map the bays are always listed in ascending order of their
  character codes, whether or not the labels contain numbers. Every list holds the same
  labels as before.
\<close>

theorem bays_ordered_per_view:
  "((\<forall>b \<in> set bayKeys. bayNumber b \<noteq> None \<and> length (filter isDigit b) \<le> 15) \<longrightarrow>
      (\<exists>ys. sortedBays lc bayKeys = Some ys \<and> mset ys = mset bayKeys \<and>
            sorted (map (\<lambda>b. the (bayNumber b)) ys))) \<and>
   ((\<forall>b \<in> set bayKeys. bayNumber b = None) \<and> consistentOn lc bayKeys \<longrightarrow>
      (\<exists>ys. sortedBays lc bayKeys = Some ys \<and> mset ys = mset bayKeys \<and>
            sorted_wrt (\<lambda>a b. lc a b \<le> 0) ys)) \<and>
   ((\<forall>b \<in> set bayKeys. length (filter isDigit b) \<le> 15) \<and>
    consistentOn (compareBays lc) bayKeys \<longrightarrow>
      (\<exists>ys. sortedBays lc bayKeys = Some ys \<and> mset ys = mset bayKeys \<and>
            sorted_wrt (\<lambda>a b. compareBays lc a b \<le> 0) ys)) \<and>
   sorted_wrt strLe (quadraBayOrder bayKeys) \<and>
   mset (quadraBayOrder bayKeys) = mset bayKeys"
proof (intro conjI impI)
  assume "\<forall>b \<in> set bayKeys. bayNumber b \<noteq> None \<and> length (filter isDigit b) \<le> 15"
  then have "\<forall>b \<in> set bayKeys. bayNumber b \<noteq> None" by blast
  then show "\<exists>ys. sortedBays lc bayKeys = Some ys \<and> mset ys = mset bayKeys \<and>
            sorted (map (\<lambda>b. the (bayNumber b)) ys)"
    by (rule yard_map_numbers)
next
  assume "(\<forall>b \<in> set bayKeys. bayNumber b = None) \<and> consistentOn lc bayKeys"
  then show "\<exists>ys. sortedBays lc bayKeys = Some ys \<and> mset ys = mset bayKeys \<and>
            sorted_wrt (\<lambda>a b. lc a b \<le> 0) ys"
    using yard_map_no_numbers by blast
next
  assume "(\<forall>b \<in> set bayKeys. length (filter isDigit b) \<le> 15) \<and>
          consistentOn (compareBays lc) bayKeys"
  then show "\<exists>ys. sortedBays lc bayKeys = Some ys \<and> mset ys = mset bayKeys \<and>
            sorted_wrt (\<lambda>a b. compareBays lc a b \<le> 0) ys"
    using yard_map_consistent by blast
next
  show "sorted_wrt strLe (quadraBayOrder bayKeys)" using planning_view_order by blast
  show "mset (quadraBayOrder bayKeys) = mset bayKeys" using planning_view_order by blast
qed

theorem bays_ordered_per_view_witness:
  "bayNumber ''Q109'' = Some 109 \<and> bayNumber ''Q12A'' = Some 12 \<and>
   sortedBays defaultCompare [''Q109'', ''Q12A''] = Some [''Q12A'', ''Q109''] \<and>
   sorted (map (\<lambda>b. the (bayNumber b)) [''Q12A'', ''Q109'']) \<and>
   bayNumber ''QB'' = None \<and> bayNumber ''QA'' = None \<and>
   consistentOn defaultCompare [''QB'', ''QA''] \<and>
   sortedBays defaultCompare [''QB'', ''QA''] = Some [''QA'', ''QB''] \<and>
   sorted_wrt (\<lambda>a b. defaultCompare a b \<le> 0) [''QA'', ''QB''] \<and>
   consistentOn (compareBays defaultCompare) [''QB'', ''Q2'', ''QA''] \<and>
   sortedBays defaultCompare [''QB'', ''Q2'', ''QA''] = Some [''Q2'', ''QA'', ''QB''] \<and>
   quadraBayOrder [''QB'', ''QA''] = [''QA'', ''QB''] \<and>
   sorted_wrt strLe (quadraBayOrder [''QB'', ''QA''])"
proof -
  have n: "bayNumber ''Q109'' = Some 109 \<and> bayNumber ''Q12A'' = Some 12 \<and>
           bayNumber ''QB'' = None \<and> bayNumber ''QA'' = None"
    by code_simp
  have d: "length (filter isDigit ''Q109'') \<le> 15 \<and> length (filter isDigit ''Q12A'') \<le> 15 \<and>
           length (filter isDigit ''QB'') \<le> 15 \<and> length (filter isDigit ''Q2'') \<le> 15 \<and>
           length (filter isDigit ''QA'') \<le> 15"
    by code_simp
  have c: "consistentOn defaultCompare [''QB'', ''QA''] \<and>
           consistentOn (compareBays defaultCompare) [''QB'', ''Q2'', ''QA'']"
    by code_simp
  have e: "sortedBays defaultCompare [''Q109'', ''Q12A''] = Some [''Q12A'', ''Q109''] \<and>
           sortedBays defaultCompare [''QB'', ''QA''] = Some [''QA'', ''QB''] \<and>
           sortedBays defaultCompare [''QB'', ''Q2'', ''QA''] = Some [''Q2'', ''QA'', ''QB''] \<and>
           quadraBayOrder [''QB'', ''QA''] = [''QA'', ''QB'']"
    by code_simp
  show ?thesis
    using n d c e
      bays_ordered_per_view[of "[''Q109'', ''Q12A'']" defaultCompare]
      bays_ordered_per_view[of "[''QB'', ''QA'']" defaultCompare]
      bays_ordered_per_view[of "[''QB'', ''Q2'', ''QA'']" defaultCompare]
    by simp
qed

text \<open>
  As the claim states it, for the yard spatial views, it fails twice. In the planning view
  the labels \<open>Q12A\<close> and \<open>Q109\<close> both contain a number, 12 and 109, and \<open>Q109\<close> is listed
  first. In the yard map, of the labels \<open>AAAB\<close>, \<open>AA10\<close> and \<open>AA9B\<close> one contains no
  number, so the claim wants them in lexicographic order, \<open>AA10\<close>, \<open>AA9B\<close>, \<open>AAAB\<close>; the
  comparator is consistent for them and lists \<open>AA9B\<close> before \<open>AA10\<close>. On labels of capital
  letters and digits the collation agrees with the order of the character codes, which
  stands for \<open>localeCompare\<close> here.
\<close>

theorem planning_bays_not_numeric_counterexample:
  "bayNumber ''Q12A'' = Some 12 \<and> bayNumber ''Q109'' = Some 109 \<and>
   quadraBayOrder [''Q12A'', ''Q109''] = [''Q109'', ''Q12A''] \<and>
   bayNumber ''AAAB'' = None \<and> bayNumber ''AA10'' = Some 10 \<and> bayNumber ''AA9B'' = Some 9 \<and>
   defaultCompare ''AA10'' ''AA9B'' = -1 \<and> defaultCompare ''AA9B'' ''AAAB'' = -1 \<and>
   sortedBays defaultCompare [''AAAB'', ''AA10'', ''AA9B''] = Some [''AA9B'', ''AA10'', ''AAAB'']"
  by code_simp

section \<open>Properties of the aggregator\<close>

lemma keys_adjustKey: "map fst (adjustKey k f obj) = map fst obj"
  by (induction obj) (auto simp add: adjustKey_def)

lemma keys_ensureKey:
  "map fst (ensureKey k v obj) = (if k \<in> set (map fst obj) then map fst obj else map fst obj @ [k])"
  by (auto simp add: ensureKey_def map_of_eq_None_iff)

lemma distinct_ensureKey: "distinct (map fst obj) \<Longrightarrow> distinct (map fst (ensureKey k v obj))"
  by (simp add: keys_ensureKey)

lemma key_in_ensureKey: "k \<in> set (map fst (ensureKey k v obj))"
  by (simp add: keys_ensureKey)

lemma sum_adjustKey:
  assumes "distinct (map fst obj)" "k \<in> set (map fst obj)" "\<And>d. g (f d) = g d + (c::int)"
  shows "sum_list (map (\<lambda>e. g (snd e)) (adjustKey k f obj)) = sum_list (map (\<lambda>e. g (snd e)) obj) + c"
  using assms(1,2)
proof (induction obj)
  case Nil then show ?case by simp
next
  case (Cons e obj)
  obtain k' d where e: "e = (k', d)" by (cases e)
  show ?case
  proof (cases "k' = k")
    case True
    then have "k \<notin> set (map fst obj)" using Cons.prems(1) e by simp
    then have "adjustKey k f obj = obj"
      by (induction obj) (auto simp add: adjustKey_def)
    then show ?thesis using True e assms(3) by (simp add: adjustKey_def)
  next
    case False
    then have "k \<in> set (map fst obj)" using Cons.prems(2) e by auto
    then have "sum_list (map (\<lambda>e. g (snd e)) (adjustKey k f obj)) = sum_list (map (\<lambda>e. g (snd e)) obj) + c"
      using Cons by simp
    then show ?thesis using False e by (simp add: adjustKey_def)
  qed
qed

lemma sum_ensureKey:
  assumes "g v = (0::int)"
  shows "sum_list (map (\<lambda>e. g (snd e)) (ensureKey k v obj)) = sum_list (map (\<lambda>e. g (snd e)) obj)"
  using assms by (simp add: ensureKey_def)

lemma serviceUpdate_fields:
  "svc_count (serviceUpdate now i d) = svc_count d + 1"
  "svc_remocoes (serviceUpdate now i d) = svc_remocoes d + remocoesOr0 i"
  "late (serviceUpdate now i d) = late d + (if isLate now i then 1 else 0)"
  "onTime (serviceUpdate now i d) = onTime d + (if isLate now i then 0 else 1)"
  by (auto simp add: serviceUpdate_def isLate_def dateBefore_def Let_def split: option.splits)

lemma quadraUpdate_fields:
  "q_count (quadraUpdate i d) = q_count d + 1"
  "q_remocoes (quadraUpdate i d) = q_remocoes d + remocoesOr0 i"
  by (auto simp add: quadraUpdate_def Let_def split: option.splits)

lemma serviceStep_own:
  "serviceKey i \<notin> set objectPrototypeKeys \<Longrightarrow>
   serviceStep now acc i =
     Inr (adjustKey (serviceKey i) (serviceUpdate now i) (ensureKey (serviceKey i) zeroStat acc))"
  by (simp add: serviceStep_def Let_def zeroStat_def)

lemma serviceStep_inherited:
  "serviceKey i \<in> set objectPrototypeKeys \<Longrightarrow>
   serviceStep now acc i = (case rawDate i of Some date \<Rightarrow> Inl TypeError | None \<Rightarrow> Inr acc)"
  by (simp add: serviceStep_def Let_def)

lemma serviceStep_sum:
  assumes "serviceStep now acc i = Inr acc'" "distinct (map fst acc)"
  shows "distinct (map fst acc') \<and>
         sum_list (map (\<lambda>e. svc_remocoes (snd e)) acc') =
           sum_list (map (\<lambda>e. svc_remocoes (snd e)) acc)
             + (if serviceKey i \<in> set objectPrototypeKeys then 0 else remocoesOr0 i)"
proof (cases "serviceKey i \<in> set objectPrototypeKeys")
  case True
  then have "acc' = acc" using assms(1) by (auto simp add: serviceStep_inherited split: option.splits)
  then show ?thesis using True assms(2) by simp
next
  case False
  define z where "z = zeroStat"
  have a: "acc' = adjustKey (serviceKey i) (serviceUpdate now i) (ensureKey (serviceKey i) z acc)"
    using assms(1) False by (simp add: serviceStep_own z_def)
  have d: "distinct (map fst (ensureKey (serviceKey i) z acc))"
    using assms(2) by (rule distinct_ensureKey)
  have s: "sum_list (map (\<lambda>e. svc_remocoes (snd e)) acc') =
        sum_list (map (\<lambda>e. svc_remocoes (snd e)) (ensureKey (serviceKey i) z acc)) + remocoesOr0 i"
    unfolding a by (rule sum_adjustKey[OF d key_in_ensureKey]) (simp add: serviceUpdate_fields)
  have "svc_remocoes z = 0" by (simp add: z_def zeroStat_def)
  then have "sum_list (map (\<lambda>e. svc_remocoes (snd e)) (ensureKey (serviceKey i) z acc))
        = sum_list (map (\<lambda>e. svc_remocoes (snd e)) acc)"
    by (rule sum_ensureKey)
  then show ?thesis using s d False by (simp add: a keys_adjustKey)
qed

lemma reduce_service_sum:
  assumes "reduceE (serviceStep now) acc xs = Inr acc'" "distinct (map fst acc)"
  shows "sum_list (map (\<lambda>e. svc_remocoes (snd e)) acc') =
           sum_list (map (\<lambda>e. svc_remocoes (snd e)) acc)
             + sum_list (map remocoesOr0 (filter (\<lambda>i. serviceKey i \<notin> set objectPrototypeKeys) xs))"
  using assms
proof (induction xs arbitrary: acc)
  case Nil then show ?case by simp
next
  case (Cons x xs)
  then obtain acc1 where s: "serviceStep now acc x = Inr acc1" and r: "reduceE (serviceStep now) acc1 xs = Inr acc'"
    by (auto split: sum.splits)
  note st = serviceStep_sum[OF s Cons.prems(2)]
  have "sum_list (map (\<lambda>e. svc_remocoes (snd e)) acc') =
           sum_list (map (\<lambda>e. svc_remocoes (snd e)) acc1)
             + sum_list (map remocoesOr0 (filter (\<lambda>i. serviceKey i \<notin> set objectPrototypeKeys) xs))"
    using Cons.IH[OF r] st by simp
  then show ?case using st by simp
qed

lemma totalRemocoes_sum: "totalRemocoes xs = sum_list (map remocoesOr0 xs)"
proof -
  have "foldl (\<lambda>sum item. sum + remocoesOr0 item) a xs = a + sum_list (map remocoesOr0 xs)" for a
    by (induction xs arbitrary: a) simp_all
  then show ?thesis by (simp add: totalRemocoes_def)
qed

lemma sum_sortBy: "sum_list (map (g :: 'a \<Rightarrow> int) (sortBy cmp xs)) = sum_list (map g xs)"
proof -
  have "sum_mset (image_mset g (mset (sortBy cmp xs))) = sum_mset (image_mset g (mset xs))"
    by (simp add: mset_sortBy)
  then show ?thesis by (simp only: sum_mset_sum_list flip: mset_map)
qed

lemma service_totals:
  assumes "serviceStats now xs = Inr stats"
  shows "sum_list (map (\<lambda>e. svc_remocoes (snd e)) stats)
           = totalRemocoes (filter (\<lambda>i. serviceKey i \<notin> set objectPrototypeKeys) xs)"
proof -
  obtain acc where r: "reduceE (serviceStep now) [] xs = Inr acc"
    and s: "stats = sortBy (\<lambda>a b. svc_remocoes (snd b) - svc_remocoes (snd a)) acc"
    using assms by (auto simp add: serviceStats_def split: sum.splits)
  show ?thesis
    unfolding s sum_sortBy totalRemocoes_sum using reduce_service_sum[OF r] by simp
qed


lemma reduce_service_returns:
  assumes "\<forall>i \<in> set xs. serviceKey i \<in> set objectPrototypeKeys \<longrightarrow> rawDate i = None"
  shows "\<exists>acc'. reduceE (serviceStep now) acc xs = Inr acc'"
  using assms
proof (induction xs arbitrary: acc)
  case Nil then show ?case by simp
next
  case (Cons x xs)
  obtain acc1 where "serviceStep now acc x = Inr acc1"
    using Cons.prems by (cases "serviceKey x \<in> set objectPrototypeKeys")
      (auto simp add: serviceStep_own serviceStep_inherited)
  then show ?case using Cons by simp
qed

lemma prototype_keys_long: "k \<in> set objectPrototypeKeys \<Longrightarrow> 7 \<le> length k"
  by (auto simp add: objectPrototypeKeys_def)

lemma quadraKey_short: "length (quadraKey i) \<le> 2"
  by (auto simp add: quadraKey_def toUpperCase_def)

lemma quadraKey_own: "quadraKey i \<notin> set objectPrototypeKeys"
  using prototype_keys_long[of "quadraKey i"] quadraKey_short[of i] by auto

lemma quadraStep_own:
  "quadraStep acc i =
     Inr (adjustKey (quadraKey i) (quadraUpdate i)
            (ensureKey (quadraKey i) \<lparr>q_count = 0, q_remocoes = 0, q_dates = []\<rparr> acc))"
  using quadraKey_own[of i] by (simp add: quadraStep_def Let_def)

lemma quadraStep_sum:
  assumes "distinct (map fst acc)"
  shows "\<exists>acc'. quadraStep acc i = Inr acc' \<and> distinct (map fst acc') \<and>
         sum_list (map (\<lambda>e. q_remocoes (snd e)) acc') =
           sum_list (map (\<lambda>e. q_remocoes (snd e)) acc) + remocoesOr0 i"
proof -
  define z where "z = \<lparr>q_count = 0, q_remocoes = 0, q_dates = []\<rparr>"
  define acc' where "acc' = adjustKey (quadraKey i) (quadraUpdate i) (ensureKey (quadraKey i) z acc)"
  have a: "quadraStep acc i = Inr acc'" by (simp add: quadraStep_own acc'_def z_def)
  have d: "distinct (map fst (ensureKey (quadraKey i) z acc))"
    using assms by (rule distinct_ensureKey)
  have s: "sum_list (map (\<lambda>e. q_remocoes (snd e)) acc') =
        sum_list (map (\<lambda>e. q_remocoes (snd e)) (ensureKey (quadraKey i) z acc)) + remocoesOr0 i"
    unfolding acc'_def by (rule sum_adjustKey[OF d key_in_ensureKey]) (simp add: quadraUpdate_fields)
  have "q_remocoes z = 0" by (simp add: z_def)
  then have "sum_list (map (\<lambda>e. q_remocoes (snd e)) (ensureKey (quadraKey i) z acc))
        = sum_list (map (\<lambda>e. q_remocoes (snd e)) acc)"
    by (rule sum_ensureKey)
  then show ?thesis using a s d by (simp add: acc'_def keys_adjustKey)
qed

lemma reduce_quadra_sum:
  assumes "distinct (map fst acc)"
  shows "\<exists>acc'. reduceE quadraStep acc xs = Inr acc' \<and>
           sum_list (map (\<lambda>e. q_remocoes (snd e)) acc') =
             sum_list (map (\<lambda>e. q_remocoes (snd e)) acc) + sum_list (map remocoesOr0 xs)"
  using assms
proof (induction xs arbitrary: acc)
  case Nil then show ?case by simp
next
  case (Cons x xs)
  obtain acc1 where s: "quadraStep acc x = Inr acc1" and d: "distinct (map fst acc1)"
    and e: "sum_list (map (\<lambda>e. q_remocoes (snd e)) acc1) =
           sum_list (map (\<lambda>e. q_remocoes (snd e)) acc) + remocoesOr0 x"
    using quadraStep_sum[OF Cons.prems, of x] by blast
  obtain acc' where r: "reduceE quadraStep acc1 xs = Inr acc'"
    and e': "sum_list (map (\<lambda>e. q_remocoes (snd e)) acc') =
             sum_list (map (\<lambda>e. q_remocoes (snd e)) acc1) + sum_list (map remocoesOr0 xs)"
    using Cons.IH[OF d] by blast
  show ?case using s r e e' by simp
qed

lemma quadra_totals:
  "\<exists>stats. quadraStats xs = Inr stats \<and>
     sum_list (map (\<lambda>e. q_remocoes (snd e)) stats) = totalRemocoes xs"
proof -
  obtain acc where r: "reduceE quadraStep [] xs = Inr acc"
    and e: "sum_list (map (\<lambda>e. q_remocoes (snd e)) acc) = sum_list (map remocoesOr0 xs)"
    using reduce_quadra_sum[of "[]" xs] by auto
  show ?thesis
    by (simp add: quadraStats_def r sum_sortBy e totalRemocoes_sum)
qed

lemma service_totals_own_keys:
  assumes "\<forall>i \<in> set xs. serviceKey i \<notin> set objectPrototypeKeys"
  shows "\<exists>stats. serviceStats now xs = Inr stats \<and>
     sum_list (map (\<lambda>e. svc_remocoes (snd e)) stats) = totalRemocoes xs"
proof -
  obtain acc where r: "reduceE (serviceStep now) [] xs = Inr acc"
    using reduce_service_returns[of xs now "[]"] assms by auto
  then have s: "serviceStats now xs = Inr (sortBy (\<lambda>a b. svc_remocoes (snd b) - svc_remocoes (snd a)) acc)"
    by (simp add: serviceStats_def)
  have "filter (\<lambda>i. serviceKey i \<notin> set objectPrototypeKeys) xs = xs"
    using assms by (simp add: filter_id_conv)
  then show ?thesis using service_totals[OF s] s by simp
qed


lemma statFor_snoc:
  "statFor now k (ys @ [x]) =
     (if serviceKey x = k then serviceUpdate now x (statFor now k ys) else statFor now k ys)"
  by (simp add: statFor_def)

lemma statFor_absent:
  "\<forall>i \<in> set ys. serviceKey i \<noteq> k \<Longrightarrow> statFor now k ys = zeroStat"
  by (induction ys rule: rev_induct) (simp_all add: statFor_snoc, simp add: statFor_def)

lemma statFor_counts:
  "svc_count (statFor now k ys) = length (filter (\<lambda>i. serviceKey i = k) ys) \<and>
   late (statFor now k ys) = length (filter (\<lambda>i. serviceKey i = k \<and> isLate now i) ys) \<and>
   onTime (statFor now k ys) = length (filter (\<lambda>i. serviceKey i = k \<and> \<not> isLate now i) ys)"
proof (induction ys rule: rev_induct)
  case Nil
  show ?case by (simp add: statFor_def zeroStat_def)
next
  case (snoc x ys)
  then show ?case by (simp add: statFor_snoc serviceUpdate_fields)
qed

lemma set_adjustKey:
  "set (adjustKey k f obj) = (\<lambda>(k', v). if k' = k then (k', f v) else (k', v)) ` set obj"
  by (simp add: adjustKey_def)

lemma in_adjustKey:
  "((k', d') \<in> set (adjustKey k f obj)) =
     (\<exists>d. (k', d) \<in> set obj \<and> d' = (if k' = k then f d else d))"
proof (induction obj)
  case Nil
  show ?case by (simp add: adjustKey_def)
next
  case (Cons e obj)
  obtain a b where e: "e = (a, b)" by (cases e)
  have c: "adjustKey k f (e # obj) = (a, if a = k then f b else b) # adjustKey k f obj"
    by (simp add: adjustKey_def e)
  show ?case unfolding c using Cons e by auto
qed

lemma set_ensureKey:
  "set (ensureKey k v obj) = (if k \<in> set (map fst obj) then set obj else insert (k, v) (set obj))"
  by (auto simp add: ensureKey_def map_of_eq_None_iff)

lemma statsInv_step:
  assumes inv: "statsInv now acc ys" and st: "serviceStep now acc x = Inr acc'"
  shows "statsInv now acc' (ys @ [x])"
proof (cases "serviceKey x \<in> set objectPrototypeKeys")
  case True
  then have a: "acc' = acc" using st by (auto simp add: serviceStep_inherited split: option.splits)
  have "\<forall>k d. (k, d) \<in> set acc \<longrightarrow> k \<noteq> serviceKey x" using inv True by (auto simp add: statsInv_def)
  then have "\<forall>k d. (k, d) \<in> set acc \<longrightarrow> statFor now k (ys @ [x]) = statFor now k ys"
    by (auto simp add: statFor_snoc)
  then show ?thesis using inv True unfolding statsInv_def a by auto
next
  case False
  define kx where "kx = serviceKey x"
  define acc1 where "acc1 = ensureKey kx zeroStat acc"
  have a: "acc' = adjustKey kx (serviceUpdate now x) acc1"
    using st False by (simp add: serviceStep_own kx_def acc1_def)
  have d: "distinct (map fst acc')"
    using inv by (simp add: a keys_adjustKey acc1_def distinct_ensureKey statsInv_def)
  have e1: "\<forall>k d. (k, d) \<in> set acc1 \<longrightarrow> k \<notin> set objectPrototypeKeys \<and> d = statFor now k ys"
  proof (cases "kx \<in> set (map fst acc)")
    case True
    then show ?thesis using inv by (simp add: acc1_def set_ensureKey statsInv_def)
  next
    case n: False
    have "\<forall>i \<in> set ys. serviceKey i \<noteq> kx"
    proof
      fix i assume i: "i \<in> set ys"
      show "serviceKey i \<noteq> kx"
      proof
        assume eq: "serviceKey i = kx"
        then have "serviceKey i \<notin> set objectPrototypeKeys" using False kx_def by simp
        then have "serviceKey i \<in> set (map fst acc)" using inv i by (simp add: statsInv_def)
        then show False using n eq by simp
      qed
    qed
    then have "statFor now kx ys = zeroStat" by (rule statFor_absent)
    then show ?thesis using inv n False by (auto simp add: acc1_def set_ensureKey statsInv_def kx_def)
  qed
  have e2: "\<forall>k d. (k, d) \<in> set acc' \<longrightarrow> k \<notin> set objectPrototypeKeys \<and> d = statFor now k (ys @ [x])"
    using e1 unfolding a in_adjustKey by (auto simp add: statFor_snoc kx_def)
  have k1: "set (map fst acc) \<subseteq> set (map fst acc')" "kx \<in> set (map fst acc')"
    by (auto simp add: a keys_adjustKey acc1_def keys_ensureKey)
  have e3: "\<forall>i \<in> set (ys @ [x]). serviceKey i \<notin> set objectPrototypeKeys \<longrightarrow> serviceKey i \<in> set (map fst acc')"
    using inv k1 by (auto simp add: statsInv_def kx_def)
  show ?thesis unfolding statsInv_def using d e2 e3 by blast
qed

lemma statsInv_reduce:
  assumes "statsInv now acc ys" "reduceE (serviceStep now) acc xs = Inr acc'"
  shows "statsInv now acc' (ys @ xs)"
  using assms
proof (induction xs arbitrary: acc ys)
  case Nil then show ?case by simp
next
  case (Cons x xs)
  then obtain acc1 where s: "serviceStep now acc x = Inr acc1" and r: "reduceE (serviceStep now) acc1 xs = Inr acc'"
    by (auto split: sum.splits)
  have "statsInv now acc1 (ys @ [x])" using statsInv_step[OF Cons.prems(1) s] .
  from Cons.IH[OF this r] show ?case by simp
qed

lemma serviceStats_entries:
  assumes "serviceStats now xs = Inr stats" "(k, d) \<in> set stats"
  shows "d = statFor now k xs \<and> k \<notin> set objectPrototypeKeys"
proof -
  obtain acc where r: "reduceE (serviceStep now) [] xs = Inr acc"
    and s: "stats = sortBy (\<lambda>a b. svc_remocoes (snd b) - svc_remocoes (snd a)) acc"
    using assms(1) by (auto simp add: serviceStats_def split: sum.splits)
  have "statsInv now [] []" by (simp add: statsInv_def)
  from statsInv_reduce[OF this r] have "statsInv now acc xs" by simp
  moreover have "(k, d) \<in> set acc" using assms(2) s by (simp add: set_sortBy)
  ultimately show ?thesis by (auto simp add: statsInv_def)
qed

text \<open>
  Claim C8: in each entry of \<open>serviceStats\<close>, \<open>late\<close> counts the items of the service that
  have a timestamp strictly before the evaluation instant, \<open>onTime\<close> counts all its other
  items, those without a timestamp among them, and the two add up to the item count.
\<close>

theorem late_iff_before_now:
  assumes "serviceStats now xs = Inr stats" and "(k, d) \<in> set stats"
  shows "late d = length (filter (\<lambda>i. serviceKey i = k \<and> isLate now i) xs) \<and>
         onTime d = length (filter (\<lambda>i. serviceKey i = k \<and> \<not> isLate now i) xs) \<and>
         svc_count d = length (filter (\<lambda>i. serviceKey i = k) xs) \<and>
         late d + onTime d = svc_count d"
proof -
  have d: "d = statFor now k xs" using serviceStats_entries[OF assms] by simp
  have "length (filter (\<lambda>i. serviceKey i = k \<and> isLate now i) xs)
        + length (filter (\<lambda>i. serviceKey i = k \<and> \<not> isLate now i) xs)
        = length (filter (\<lambda>i. serviceKey i = k) xs)"
    by (induction xs) auto
  then show ?thesis unfolding d using statFor_counts[of now k xs] by simp
qed

theorem late_iff_before_now_witness:
  "serviceStats 1000
     [mkSchedule ''A'' ''IMPORT'' ''Q1'' 3 (Some (Date (Some 10))),
      mkSchedule ''B'' ''IMPORT'' ''Q1'' 2 None,
      mkSchedule ''C'' ''IMPORT'' ''Q2'' 1 (Some (Date (Some 2000)))]
     = Inr [(''IMPORT'', \<lparr>svc_count = 3, svc_remocoes = 6, svc_dates = [Some 10, Some 2000],
                           late = 1, onTime = 2\<rparr>)] \<and>
   (''IMPORT'', \<lparr>svc_count = 3, svc_remocoes = 6, svc_dates = [Some 10, Some 2000],
                           late = 1, onTime = 2\<rparr>)
     \<in> set [(''IMPORT'', \<lparr>svc_count = 3, svc_remocoes = 6, svc_dates = [Some 10, Some 2000],
                           late = 1, onTime = 2\<rparr>)] \<and>
   length (filter (\<lambda>i. serviceKey i = ''IMPORT'' \<and> isLate 1000 i)
     [mkSchedule ''A'' ''IMPORT'' ''Q1'' 3 (Some (Date (Some 10))),
      mkSchedule ''B'' ''IMPORT'' ''Q1'' 2 None,
      mkSchedule ''C'' ''IMPORT'' ''Q2'' 1 (Some (Date (Some 2000)))]) = 1"
proof -
  have h1: "serviceStats 1000
     [mkSchedule ''A'' ''IMPORT'' ''Q1'' 3 (Some (Date (Some 10))),
      mkSchedule ''B'' ''IMPORT'' ''Q1'' 2 None,
      mkSchedule ''C'' ''IMPORT'' ''Q2'' 1 (Some (Date (Some 2000)))]
     = Inr [(''IMPORT'', \<lparr>svc_count = 3, svc_remocoes = 6, svc_dates = [Some 10, Some 2000],
                           late = 1, onTime = 2\<rparr>)]"
    by code_simp
  have h2: "(''IMPORT'', \<lparr>svc_count = 3, svc_remocoes = 6, svc_dates = [Some 10, Some 2000],
                           late = 1, onTime = 2\<rparr>)
     \<in> set [(''IMPORT'', \<lparr>svc_count = 3, svc_remocoes = 6, svc_dates = [Some 10, Some 2000],
                           late = 1, onTime = 2\<rparr>)]"
    by simp
  show ?thesis
    using h1 h2 late_iff_before_now[OF h1 h2] by simp
qed

text \<open>
  Claim C6: the \<open>remocoes\<close> of all services add up to the \<open>remocoes\<close> of all filtered items,
  and so do those of all quadras. The quadra half holds for every list of items (lemma
  \<open>quadra_totals\<close>), and the service half for every list in which no service name is a
  property name of \<open>Object.prototype\<close> (lemma \<open>service_totals_own_keys\<close>). For an item
  whose service is named \<open>constructor\<close> no entry is made: the services add up to 0 where
  the items add up to 5.
\<close>

theorem service_totals_miss_inherited_name:
  "serviceStats 1000 [mkSchedule ''A'' ''constructor'' ''Q1'' 5 None] = Inr [] \<and>
   totalRemocoes [mkSchedule ''A'' ''constructor'' ''Q1'' 5 None] = 5 \<and>
   quadraStats [mkSchedule ''A'' ''constructor'' ''Q1'' 5 None]
     = Inr [(''Q1'', \<lparr>q_count = 1, q_remocoes = 5, q_dates = []\<rparr>)]"
  by code_simp

end
